theory Spec2Isabelle
  imports Main
begin

section \<open>Data model (frontend/types/index.ts)\<close>

text \<open>
  Only the fields that the chat panel and the upload list read or write are kept; the
  remaining fields of the interfaces (icons, colours, documents, SQL results) are
  presentation payload that no branch of the code looks at.
\<close>

datatype persona_kind = financial | legal | general

record Persona =
  persona_name :: string
  persona_type :: persona_kind

record QueryResponse =
  success :: bool
  response :: string
  suggested_queries :: "string list"
  processing_time :: "string option"

datatype step_status = Pending | Processing | Completed | Error

record ProcessingStep =
  step_id :: string
  step_name :: string
  status :: step_status
  duration :: "nat option"

record ProcessingTrace =
  query :: string
  steps :: "ProcessingStep list"
  totalDuration :: nat
  finalResult :: "QueryResponse option"

datatype sender = User | Assistant | System

record Metadata =
  persona :: string
  suggestedQueries :: "string list"
  processingTime :: "string option"

text \<open>
  A message id is \<^verbatim>\<open>Date.now().toString()\<close>: the number is kept, its decimal
  rendering is not modelled.
\<close>

record ChatMessage =
  msg_id :: nat
  msg_type :: sender
  content :: string
  timestamp :: nat
  metadata :: "Metadata option"

section \<open>The chat panel: \<^verbatim>\<open>handleSendMessage\<close> and its continuations\<close>

text \<open>
  \<^verbatim>\<open>handleSendMessage\<close> is an async function. It runs in pieces, each of them atomic
  on the single UI thread: the synchronous prefix up to the \<^verbatim>\<open>await\<close>, the three
  timer callbacks registered before the await, the continuation after the await (which
  only registers the fourth timer), that fourth callback, and the \<^verbatim>\<open>catch\<close> block.
  Every invocation that passes the guard owns one \<^verbatim>\<open>trace\<close> object, captured by all
  of its callbacks; it also captures the persona that was selected when it started.
\<close>

datatype call_state = Outstanding | Resolved QueryResponse | Rejected

record invocation =
  trace :: ProcessingTrace
  captured :: Persona
  call :: call_state

text \<open>
  A pending timer is its due time and its callback; a callback names the invocation
  whose closure it is. \<^verbatim>\<open>Final\<close> also carries the \<^verbatim>\<open>response\<close> it closes over.
\<close>

datatype callback = Tick1 nat | Tick2 nat | Tick3 nat | Final nat QueryResponse

fun owner :: "callback \<Rightarrow> nat" where
  "owner (Tick1 k) = k"
| "owner (Tick2 k) = k"
| "owner (Tick3 k) = k"
| "owner (Final k r) = k"

record chat_world =
  now :: nat
  timers :: "(nat \<times> callback) list"
  invocations :: "invocation list"
  messages :: "ChatMessage list"
  selectedPersona :: "Persona option"
  isProcessing :: bool
  processingTrace :: "ProcessingTrace option"
  inputValue :: string
  suggestedQueriesState :: "string list"

text \<open>
  The timer queue of the runtime: timers fire in the order of their due times, and in
  the order of registration among equal due times. \<^verbatim>\<open>setTimeout\<close> keeps the queue
  sorted.
\<close>

fun enqueue :: "nat \<times> callback \<Rightarrow> (nat \<times> callback) list \<Rightarrow> (nat \<times> callback) list" where
  "enqueue x [] = [x]"
| "enqueue x (y # ys) = (if fst x < fst y then x # y # ys else y # enqueue x ys)"

definition setTimeout :: "callback \<Rightarrow> nat \<Rightarrow> chat_world \<Rightarrow> chat_world" where
  "setTimeout cb delay w = w\<lparr>timers := enqueue (now w + delay, cb) (timers w)\<rparr>"

subsection \<open>The guard\<close>

text \<open>
  \<^verbatim>\<open>String.prototype.trim\<close> strips white space and line terminators from both ends. A
  \<open>char\<close> stands for a code unit below 256; among those the white space and line
  terminators of the language are tab, line feed, vertical tab, form feed, carriage return,
  space and the no-break space. An empty string is falsy.
\<close>

definition is_space :: "char \<Rightarrow> bool" where
  "is_space c = (c \<in> set [CHR 0x09, CHR 0x0A, CHR 0x0B, CHR 0x0C, CHR 0x0D, CHR 0x20, CHR 0xA0])"

definition trim :: "string \<Rightarrow> string" where
  "trim s = rev (dropWhile is_space (rev (dropWhile is_space s)))"

definition blocked :: "chat_world \<Rightarrow> bool" where
  "blocked w = (trim (inputValue w) = [] \<or> selectedPersona w = None \<or> isProcessing w)"

subsection \<open>The synchronous prefix\<close>

definition userMessage :: "nat \<Rightarrow> string \<Rightarrow> ChatMessage" where
  "userMessage t inp =
     \<lparr>msg_id = t, msg_type = User, content = inp, timestamp = t, metadata = None\<rparr>"

definition new_trace :: "string \<Rightarrow> ProcessingTrace" where
  "new_trace inp =
     \<lparr>query = inp,
      steps =
        [\<lparr>step_id = ''1'', step_name = ''Query Analysis'', status = Processing, duration = None\<rparr>,
         \<lparr>step_id = ''2'', step_name = ''Document Retrieval'', status = Pending, duration = None\<rparr>,
         \<lparr>step_id = ''3'', step_name = ''Agent Processing'', status = Pending, duration = None\<rparr>,
         \<lparr>step_id = ''4'', step_name = ''Response Generation'', status = Pending, duration = None\<rparr>],
      totalDuration = 0,
      finalResult = None\<rparr>"

text \<open>
  Lines 41 to 100: the guard, the user message, the trace, its first publication, the
  three timers at 500, 1300 and 2500 ms, and the call of \<^verbatim>\<open>processQuery\<close>, whose promise
  is now outstanding. The new invocation gets the next free index.
\<close>

definition handleSendMessage :: "chat_world \<Rightarrow> chat_world" where
  "handleSendMessage w =
     (if blocked w then w
      else case selectedPersona w of
        None \<Rightarrow> w
      | Some p \<Rightarrow>
          (let k = length (invocations w);
               tr = new_trace (inputValue w);
               w1 = w\<lparr>messages := messages w @ [userMessage (now w) (inputValue w)],
                      inputValue := [],
                      isProcessing := True,
                      processingTrace := Some tr,
                      invocations := invocations w @ [\<lparr>trace = tr, captured = p, call = Outstanding\<rparr>]\<rparr>
           in setTimeout (Tick3 k) 2500 (setTimeout (Tick2 k) 1300 (setTimeout (Tick1 k) 500 w1))))"

subsection \<open>The timer callbacks\<close>

text \<open>
  A callback mutates the steps of its own trace object in place and publishes a shallow
  copy. Every mutation is followed by a publication within the same callback, so between
  callbacks the published value and the object agree, and a published snapshot stands for
  the copy. The four steps are created together, so the indices are always in range.
\<close>

definition set_status :: "nat \<Rightarrow> step_status \<Rightarrow> ProcessingTrace \<Rightarrow> ProcessingTrace" where
  "set_status i s tr = tr\<lparr>steps := (steps tr)[i := (steps tr ! i)\<lparr>status := s\<rparr>]\<rparr>"

definition set_duration :: "nat \<Rightarrow> nat \<Rightarrow> ProcessingTrace \<Rightarrow> ProcessingTrace" where
  "set_duration i d tr = tr\<lparr>steps := (steps tr)[i := (steps tr ! i)\<lparr>duration := Some d\<rparr>]\<rparr>"

definition tick1 :: "ProcessingTrace \<Rightarrow> ProcessingTrace" where
  "tick1 tr = set_status 1 Processing (set_duration 0 500 (set_status 0 Completed tr))"

definition tick2 :: "ProcessingTrace \<Rightarrow> ProcessingTrace" where
  "tick2 tr = set_status 2 Processing (set_duration 1 800 (set_status 1 Completed tr))"

definition tick3 :: "ProcessingTrace \<Rightarrow> ProcessingTrace" where
  "tick3 tr = set_status 3 Processing (set_duration 2 1200 (set_status 2 Completed tr))"

definition finish :: "QueryResponse \<Rightarrow> ProcessingTrace \<Rightarrow> ProcessingTrace" where
  "finish r tr =
     (set_duration 3 1000 (set_status 3 Completed tr))\<lparr>totalDuration := 3500, finalResult := Some r\<rparr>"

definition mutate_and_publish :: "nat \<Rightarrow> (ProcessingTrace \<Rightarrow> ProcessingTrace) \<Rightarrow> chat_world \<Rightarrow> chat_world" where
  "mutate_and_publish k f w =
     (let iv = invocations w ! k; tr = f (trace iv)
      in w\<lparr>invocations := (invocations w)[k := iv\<lparr>trace := tr\<rparr>], processingTrace := Some tr\<rparr>)"

definition assistantMessage :: "nat \<Rightarrow> Persona \<Rightarrow> QueryResponse \<Rightarrow> ChatMessage" where
  "assistantMessage t p r =
     \<lparr>msg_id = t + 1, msg_type = Assistant, content = response r, timestamp = t,
      metadata = Some \<lparr>persona = persona_name p,
                       suggestedQueries = suggested_queries r,
                       processingTime = processing_time r\<rparr>\<rparr>"

fun run_callback :: "callback \<Rightarrow> chat_world \<Rightarrow> chat_world" where
  "run_callback (Tick1 k) w = mutate_and_publish k tick1 w"
| "run_callback (Tick2 k) w = mutate_and_publish k tick2 w"
| "run_callback (Tick3 k) w = mutate_and_publish k tick3 w"
| "run_callback (Final k r) w =
     (let w1 = mutate_and_publish k (finish r) w
      in w1\<lparr>messages := messages w1 @ [assistantMessage (now w1) (captured (invocations w1 ! k)) r],
            suggestedQueriesState := suggested_queries r,
            isProcessing := False\<rparr>)"

subsection \<open>The continuations of the await\<close>

text \<open>
  Lines 101 to 130: when the promise resolves, the continuation registers the fourth
  timer, 3500 ms from the moment of resolution.
\<close>

definition on_resolve :: "nat \<Rightarrow> QueryResponse \<Rightarrow> chat_world \<Rightarrow> chat_world" where
  "on_resolve k r w =
     setTimeout (Final k r) 3500
       (w\<lparr>invocations := (invocations w)[k := (invocations w ! k)\<lparr>call := Resolved r\<rparr>]\<rparr>)"

definition fallback_text :: string where
  "fallback_text = ''Sorry, I encountered an error processing your query. Please try again.''"

definition errorMessage :: "nat \<Rightarrow> ChatMessage" where
  "errorMessage t =
     \<lparr>msg_id = t + 1, msg_type = Assistant, content = fallback_text, timestamp = t, metadata = None\<rparr>"

text \<open>Lines 132 to 148: the catch block. It cancels no timer.\<close>

definition on_reject :: "nat \<Rightarrow> chat_world \<Rightarrow> chat_world" where
  "on_reject k w =
     w\<lparr>invocations := (invocations w)[k := (invocations w ! k)\<lparr>call := Rejected\<rparr>],
       messages := messages w @ [errorMessage (now w)],
       isProcessing := False,
       processingTrace := None\<rparr>"

subsection \<open>The event loop\<close>

text \<open>
  What can happen to the page: the user edits the input or picks a persona, the user
  submits, time passes, the earliest due timer fires, or the outstanding call of an
  invocation settles. A timer never fires before it is due; it may fire late, but never
  before a timer that is due earlier. Each event runs to completion, and the component is
  rendered again before the next one, so every piece of code reads the state its
  predecessor left. An event that is not enabled yields \<open>None\<close>.
\<close>

datatype event =
    SetInput string
  | SelectPersona Persona
  | Send
  | Wait nat
  | Fire
  | Resolve nat QueryResponse
  | Reject nat

definition outstanding :: "nat \<Rightarrow> chat_world \<Rightarrow> bool" where
  "outstanding k w = (k < length (invocations w) \<and> call (invocations w ! k) = Outstanding)"

fun step :: "event \<Rightarrow> chat_world \<Rightarrow> chat_world option" where
  "step (SetInput s) w = Some (w\<lparr>inputValue := s\<rparr>)"
| "step (SelectPersona p) w = Some (w\<lparr>selectedPersona := Some p\<rparr>)"
| "step Send w = Some (handleSendMessage w)"
| "step (Wait d) w = Some (w\<lparr>now := now w + d\<rparr>)"
| "step Fire w =
     (case timers w of
        [] \<Rightarrow> None
      | (due, cb) # rest \<Rightarrow>
          if due \<le> now w then Some (run_callback cb (w\<lparr>timers := rest\<rparr>)) else None)"
| "step (Resolve k r) w = (if outstanding k w then Some (on_resolve k r w) else None)"
| "step (Reject k) w = (if outstanding k w then Some (on_reject k w) else None)"

fun run :: "event list \<Rightarrow> chat_world \<Rightarrow> chat_world option" where
  "run [] w = Some w"
| "run (e # es) w = (case step e w of None \<Rightarrow> None | Some w' \<Rightarrow> run es w')"

text \<open>The page as mounted at time \<open>t\<close> (the home page sets the welcome message).\<close>

definition welcome_message :: "nat \<Rightarrow> ChatMessage" where
  "welcome_message t =
     \<lparr>msg_id = 1, msg_type = Assistant,
      content = ''Welcome to the Dynamic Agentic System! I can help you with financial analysis, legal documents, general queries, and more. What would you like to explore today?'',
      timestamp = t, metadata = None\<rparr>"

definition mounted :: "nat \<Rightarrow> chat_world" where
  "mounted t =
     \<lparr>now = t, timers = [], invocations = [], messages = [welcome_message t], selectedPersona = None,
      isProcessing = False, processingTrace = None, inputValue = [], suggestedQueriesState = []\<rparr>"

subsection \<open>Timelines of one query\<close>

lemma callback_keeps_timers: "timers (run_callback cb w) = timers w"
  by (cases cb) (simp_all add: mutate_and_publish_def Let_def)

text \<open>
  Let time pass until \<open>t\<close>, every timer firing exactly when it is due. With \<open>strict\<close> the
  timers due at \<open>t\<close> itself are left pending: what happens at \<open>t\<close> next runs before them.
\<close>

function advance :: "bool \<Rightarrow> nat \<Rightarrow> chat_world \<Rightarrow> chat_world" where
  "advance strict t w =
     (case timers w of
        [] \<Rightarrow> w\<lparr>now := max (now w) t\<rparr>
      | (due, cb) # rest \<Rightarrow>
          if (if strict then due < t else due \<le> t)
          then advance strict t (run_callback cb (w\<lparr>now := max (now w) due, timers := rest\<rparr>))
          else w\<lparr>now := max (now w) t\<rparr>)"
  by pat_completeness auto
termination
  by (relation "measure (\<lambda>(strict, t, w). length (timers w))") (auto simp: callback_keeps_timers)

text \<open>The promise of \<^verbatim>\<open>processQuery\<close> either resolves with a response or rejects.\<close>

datatype outcome = Succeeds QueryResponse | Fails

definition settle :: "nat \<Rightarrow> outcome \<Rightarrow> chat_world \<Rightarrow> chat_world" where
  "settle k oc w = (case oc of Succeeds r \<Rightarrow> on_resolve k r w | Fails \<Rightarrow> on_reject k w)"

text \<open>A freshly mounted page on which persona \<open>p\<close> is picked and \<open>q\<close> is typed and sent.\<close>

definition submit :: "Persona \<Rightarrow> string \<Rightarrow> nat \<Rightarrow> chat_world" where
  "submit p q t0 = handleSendMessage ((mounted t0)\<lparr>selectedPersona := Some p, inputValue := q\<rparr>)"

text \<open>
  The page \<open>t\<close> ms after that submission, when the call settles \<open>T\<close> ms after it. If a timer
  is due at the very moment the call settles, \<open>call_first\<close> says which of the two runs
  first.
\<close>

definition timeline :: "Persona \<Rightarrow> string \<Rightarrow> nat \<Rightarrow> outcome \<Rightarrow> nat \<Rightarrow> bool \<Rightarrow> nat \<Rightarrow> chat_world" where
  "timeline p q t0 oc T call_first t =
     (if t < T then advance False (t0 + t) (submit p q t0)
      else advance False (t0 + t) (settle 0 oc (advance call_first (t0 + T) (submit p q t0))))"

section \<open>The upload list: \<^verbatim>\<open>FileUpload.tsx\<close>\<close>

record File =
  file_name :: string
  file_size :: nat
  file_type :: string

datatype upload_status = Uploading | UploadProcessing | UploadCompleted | UploadError

record FileUpload =
  upload_id :: string
  upload_name :: string
  upload_size :: nat
  upload_type :: string
  upload_status :: upload_status
  progress :: int
  upload_error :: "string option"

text \<open>
  What a rejected \<^verbatim>\<open>onFileUpload\<close> promise throws: an \<^verbatim>\<open>Error\<close> object with its message, or
  any other value.
\<close>

datatype thrown = ErrorObject string | OtherValue

definition failure_message :: "thrown \<Rightarrow> string" where
  "failure_message e = (case e of ErrorObject m \<Rightarrow> m | OtherValue \<Rightarrow> ''Upload failed'')"

text \<open>
  \<^verbatim>\<open>onDrop\<close> is an async function whose loop awaits the upload of one file before it turns
  to the next. An invocation is therefore either suspended at the \<^verbatim>\<open>await\<close> for one
  file, holding that upload's id, the handle of its interval and the files still to come,
  or it has returned.
\<close>

datatype drop_state = Awaiting File string nat "File list" | Finished

text \<open>
  The component state \<^verbatim>\<open>uploads\<close>, the intervals that are set and not cleared (each with
  the upload id its callback closes over), the invocations of \<^verbatim>\<open>onDrop\<close>, and the number
  of uploads created so far. The \<open>n\<close>-th upload created takes its id from the \<open>n\<close>-th
  call of \<^verbatim>\<open>Math.random\<close>, given as \<open>rnd n\<close>, and its interval gets the handle \<open>n\<close>.
\<close>

record upload_world =
  uploads :: "FileUpload list"
  intervals :: "(nat \<times> string) list"
  drops :: "drop_state list"
  created :: nat

definition new_upload :: "string \<Rightarrow> File \<Rightarrow> FileUpload" where
  "new_upload i f =
     \<lparr>upload_id = i, upload_name = file_name f, upload_size = file_size f, upload_type = file_type f,
      upload_status = Uploading, progress = 0, upload_error = None\<rparr>"

text \<open>
  Lines 21 to 43: one turn of the loop up to the await (the upload record, its interval, the
  call of \<^verbatim>\<open>onFileUpload\<close>), or the end of the loop when no file is left.
\<close>

fun loop_from :: "(nat \<Rightarrow> string) \<Rightarrow> nat \<Rightarrow> File list \<Rightarrow> upload_world \<Rightarrow> upload_world" where
  "loop_from rnd b [] w = w\<lparr>drops := (drops w)[b := Finished]\<rparr>"
| "loop_from rnd b (f # fs) w =
     w\<lparr>uploads := uploads w @ [new_upload (rnd (created w)) f],
       intervals := intervals w @ [(created w, rnd (created w))],
       drops := (drops w)[b := Awaiting f (rnd (created w)) (created w) fs],
       created := created w + 1\<rparr>"

definition onDrop :: "(nat \<Rightarrow> string) \<Rightarrow> File list \<Rightarrow> upload_world \<Rightarrow> upload_world" where
  "onDrop rnd acceptedFiles w =
     loop_from rnd (length (drops w)) acceptedFiles (w\<lparr>drops := drops w @ [Finished]\<rparr>)"

text \<open>Lines 35 to 41: the interval callback of the upload with id \<open>i\<close>.\<close>

definition interval_callback :: "string \<Rightarrow> upload_world \<Rightarrow> upload_world" where
  "interval_callback i w =
     w\<lparr>uploads := map (\<lambda>u. if upload_id u = i then u\<lparr>progress := min (progress u + 10) 90\<rparr> else u)
                      (uploads w)\<rparr>"

text \<open>
  Lines 45 to 50, then the next turn of the loop. (An invocation that has returned awaits
  nothing; the event loop below never resumes one.)
\<close>

definition on_upload_resolved :: "(nat \<Rightarrow> string) \<Rightarrow> nat \<Rightarrow> upload_world \<Rightarrow> upload_world" where
  "on_upload_resolved rnd b w =
     (case drops w ! b of
        Finished \<Rightarrow> w
      | Awaiting f i h fs \<Rightarrow>
          loop_from rnd b fs
            (w\<lparr>intervals := filter (\<lambda>x. fst x \<noteq> h) (intervals w),
               uploads := map (\<lambda>u. if upload_id u = i
                                    then u\<lparr>upload_status := UploadCompleted, progress := 100\<rparr> else u)
                              (uploads w)\<rparr>))"

text \<open>Lines 51 to 57, then the next turn of the loop. The interval is not cleared here.\<close>

definition on_upload_rejected :: "(nat \<Rightarrow> string) \<Rightarrow> nat \<Rightarrow> thrown \<Rightarrow> upload_world \<Rightarrow> upload_world" where
  "on_upload_rejected rnd b e w =
     (case drops w ! b of
        Finished \<Rightarrow> w
      | Awaiting f i h fs \<Rightarrow>
          loop_from rnd b fs
            (w\<lparr>uploads := map (\<lambda>u. if upload_id u = i
                                    then u\<lparr>upload_status := UploadError,
                                           upload_error := Some (failure_message e)\<rparr> else u)
                              (uploads w)\<rparr>))"

definition removeUpload :: "string \<Rightarrow> upload_world \<Rightarrow> upload_world" where
  "removeUpload i w = w\<lparr>uploads := filter (\<lambda>u. upload_id u \<noteq> i) (uploads w)\<rparr>"

text \<open>
  Line 17: the props of the component that configure the drop zone (lines 61 to 66), with
  their defaults.
\<close>

record props =
  acceptedTypes :: "string list"
  maxSize :: nat

definition default_props :: props where
  "default_props = \<lparr>acceptedTypes = [''application/pdf'', ''text/csv''], maxSize = 10 * 1024 * 1024\<rparr>"

text \<open>
  Modelled from the spec: the filter that the drop zone applies before it calls
  \<^verbatim>\<open>onDrop\<close>. The drop zone is the library react-dropzone, which is not among the sources;
  the component only hands it the accepted media types and the maximum size. By the
  specification a file is turned away when its media type is not in the accepted set or its
  size exceeds the maximum.
\<close>

definition dropzone_accepts :: "props \<Rightarrow> File \<Rightarrow> bool" where
  "dropzone_accepts cfg f = (file_type f \<in> set (acceptedTypes cfg) \<and> file_size f \<le> maxSize cfg)"

text \<open>
  What can happen to the upload list: files are dropped, an interval that is still set
  fires, the upload awaited by an invocation settles, or a row is dismissed. The intervals
  are not timed: any order of ticks and settlements is a run.
\<close>

datatype upload_event =
    Drop "File list"
  | Tick nat
  | UploadResolved nat
  | UploadRejected nat thrown
  | Remove string

definition awaiting :: "nat \<Rightarrow> upload_world \<Rightarrow> bool" where
  "awaiting b w = (b < length (drops w) \<and> drops w ! b \<noteq> Finished)"

fun upload_step :: "props \<Rightarrow> (nat \<Rightarrow> string) \<Rightarrow> upload_event \<Rightarrow> upload_world \<Rightarrow> upload_world option" where
  "upload_step cfg rnd (Drop files) w = Some (onDrop rnd (filter (dropzone_accepts cfg) files) w)"
| "upload_step cfg rnd (Tick h) w =
     (case map_of (intervals w) h of None \<Rightarrow> None | Some i \<Rightarrow> Some (interval_callback i w))"
| "upload_step cfg rnd (UploadResolved b) w =
     (if awaiting b w then Some (on_upload_resolved rnd b w) else None)"
| "upload_step cfg rnd (UploadRejected b e) w =
     (if awaiting b w then Some (on_upload_rejected rnd b e w) else None)"
| "upload_step cfg rnd (Remove i) w = Some (removeUpload i w)"

fun upload_run :: "props \<Rightarrow> (nat \<Rightarrow> string) \<Rightarrow> upload_event list \<Rightarrow> upload_world \<Rightarrow> upload_world option" where
  "upload_run cfg rnd [] w = Some w"
| "upload_run cfg rnd (e # es) w =
     (case upload_step cfg rnd e w of None \<Rightarrow> None | Some w' \<Rightarrow> upload_run cfg rnd es w')"

definition no_uploads :: upload_world where
  "no_uploads = \<lparr>uploads = [], intervals = [], drops = [], created = 0\<rparr>"

section \<open>Notions used in the statements and the proofs\<close>

subsection \<open>The chat panel\<close>

text \<open>The mutation a callback applies to its trace, and which callbacks are final ticks.\<close>

definition cb_fun :: "callback \<Rightarrow> ProcessingTrace \<Rightarrow> ProcessingTrace" where
  "cb_fun cb = (case cb of Tick1 k \<Rightarrow> tick1 | Tick2 k \<Rightarrow> tick2 | Tick3 k \<Rightarrow> tick3 | Final k r \<Rightarrow> finish r)"

definition is_final :: "callback \<Rightarrow> bool" where
  "is_final cb = (case cb of Final k r \<Rightarrow> True | _ \<Rightarrow> False)"

text \<open>
  The values a trace object takes: as created, after each of the three ticks, and after
  the final tick with the response attached.
\<close>

definition stage0 :: "string \<Rightarrow> ProcessingTrace" where "stage0 q = new_trace q"

definition stage1 :: "string \<Rightarrow> ProcessingTrace" where "stage1 q = tick1 (stage0 q)"

definition stage2 :: "string \<Rightarrow> ProcessingTrace" where "stage2 q = tick2 (stage1 q)"

definition stage3 :: "string \<Rightarrow> ProcessingTrace" where "stage3 q = tick3 (stage2 q)"

definition stage4 :: "string \<Rightarrow> QueryResponse \<Rightarrow> ProcessingTrace" where "stage4 q r = finish r (stage3 q)"

definition staged :: "ProcessingTrace \<Rightarrow> bool" where
  "staged tr = (\<exists>q. tr = stage0 q \<or> tr = stage1 q \<or> tr = stage2 q \<or> tr = stage3 q \<or> (\<exists>r. tr = stage4 q r))"

text \<open>
  The invariant of one invocation: its trace is at one of the stages, and its pending
  callbacks are exactly the ticks that have not fired yet, in order, followed by the final
  tick when the call has resolved and the final tick has not fired.
\<close>

fun tail_ok :: "call_state \<Rightarrow> nat \<Rightarrow> callback list \<Rightarrow> callback list \<Rightarrow> bool" where
  "tail_ok Outstanding k ts pend = (pend = ts)"
| "tail_ok Rejected k ts pend = (pend = ts)"
| "tail_ok (Resolved r) k ts pend = (pend = ts @ [Final k r])"

definition task_ok :: "callback list \<Rightarrow> nat \<Rightarrow> invocation \<Rightarrow> bool" where
  "task_ok pend k iv =
     (\<exists>q. (trace iv = stage0 q \<and> tail_ok (call iv) k [Tick1 k, Tick2 k, Tick3 k] pend)
        \<or> (trace iv = stage1 q \<and> tail_ok (call iv) k [Tick2 k, Tick3 k] pend)
        \<or> (trace iv = stage2 q \<and> tail_ok (call iv) k [Tick3 k] pend)
        \<or> (trace iv = stage3 q \<and> tail_ok (call iv) k [] pend)
        \<or> (\<exists>r. trace iv = stage4 q r \<and> call iv = Resolved r \<and> pend = []))"

text \<open>
  An invocation is in flight from its start until its terminal transition: its call is
  outstanding, or it resolved and the final tick has not attached the result yet.
\<close>

definition in_flight :: "invocation \<Rightarrow> bool" where
  "in_flight iv =
     (case call iv of Outstanding \<Rightarrow> True | Resolved r \<Rightarrow> finalResult (trace iv) = None | Rejected \<Rightarrow> False)"

text \<open>The invariant of the whole page.\<close>

definition pending_of :: "nat \<Rightarrow> chat_world \<Rightarrow> callback list" where
  "pending_of k w = filter (\<lambda>cb. owner cb = k) (map snd (timers w))"

definition inv_timers :: "chat_world \<Rightarrow> bool" where
  "inv_timers w =
     (sorted (map fst (timers w)) \<and>
      (\<forall>x\<in>set (timers w). fst x \<le> now w + 3500 \<and> owner (snd x) < length (invocations w)))"

definition inv_tasks :: "chat_world \<Rightarrow> bool" where
  "inv_tasks w = (\<forall>k<length (invocations w). task_ok (pending_of k w) k (invocations w ! k))"

definition in_flight_count :: "chat_world \<Rightarrow> nat" where
  "in_flight_count w = length (filter in_flight (invocations w))"

definition inv_flight :: "chat_world \<Rightarrow> bool" where
  "inv_flight w = (in_flight_count w = (if isProcessing w then 1 else 0))"

definition inv_published :: "chat_world \<Rightarrow> bool" where
  "inv_published w = (case processingTrace w of None \<Rightarrow> True | Some tr \<Rightarrow> staged tr)"

definition world_inv :: "chat_world \<Rightarrow> bool" where
  "world_inv w = (inv_timers w \<and> inv_tasks w \<and> inv_flight w \<and> inv_published w)"

text \<open>The states the event loop reaches from a mounted page, and the traces in a state.\<close>

definition reachable :: "chat_world \<Rightarrow> bool" where
  "reachable w = (\<exists>es t. run es (mounted t) = Some w)"

definition traces :: "chat_world \<Rightarrow> ProcessingTrace set" where
  "traces w = set (map trace (invocations w)) \<union> set_option (processingTrace w)"

text \<open>The query of the scenarios.\<close>

definition analyst :: Persona where
  "analyst = \<lparr>persona_name = ''Financial Analyst'', persona_type = financial\<rparr>"

definition revenue_query :: string where
  "revenue_query = ''What is the revenue trend?''"

definition revenue_answer :: QueryResponse where
  "revenue_answer =
     \<lparr>success = True, response = ''Revenue grew 12%.'', suggested_queries = [''Why did it grow?''],
      processing_time = None\<rparr>"

text \<open>
  What the chat panel shows of a message: the sender, the text and the metadata; ids and
  timestamps are left out. The reply that an invocation has received so far, its exchange
  (the query, then the reply) and the transcript of a page, invocation after invocation.
\<close>

definition shown :: "ChatMessage \<Rightarrow> sender \<times> string \<times> Metadata option" where
  "shown m = (msg_type m, content m, metadata m)"

definition reply :: "invocation \<Rightarrow> (sender \<times> string \<times> Metadata option) list" where
  "reply iv =
     (case call iv of
        Outstanding \<Rightarrow> []
      | Resolved r \<Rightarrow>
          if finalResult (trace iv) = None then []
          else [(Assistant, response r,
                 Some \<lparr>persona = persona_name (captured iv), suggestedQueries = suggested_queries r,
                       processingTime = processing_time r\<rparr>)]
      | Rejected \<Rightarrow>
          [(Assistant, ''Sorry, I encountered an error processing your query. Please try again.'', None)])"

definition exchange :: "invocation \<Rightarrow> (sender \<times> string \<times> Metadata option) list" where
  "exchange iv = (User, query (trace iv), None) # reply iv"

definition transcript :: "chat_world \<Rightarrow> (sender \<times> string \<times> Metadata option) list" where
  "transcript w = concat (map exchange (invocations w))"

text \<open>
  Only the newest invocation can be in flight, and the messages of a page mounted at \<open>t\<close>
  are the welcome message and the transcript.
\<close>

definition last_only :: "chat_world \<Rightarrow> bool" where
  "last_only w = (\<forall>k. Suc k < length (invocations w) \<longrightarrow> \<not> in_flight (invocations w ! k))"

definition transcript_ok :: "nat \<Rightarrow> chat_world \<Rightarrow> bool" where
  "transcript_ok t w = (map shown (messages w) = shown (welcome_message t) # transcript w)"

subsection \<open>The upload list\<close>

text \<open>Where the loop of \<^verbatim>\<open>onDrop\<close> stands after a turn on the files \<open>fs\<close>.\<close>

definition next_state :: "(nat \<Rightarrow> string) \<Rightarrow> nat \<Rightarrow> File list \<Rightarrow> drop_state" where
  "next_state rnd n fs = (case fs of [] \<Rightarrow> Finished | f # rest \<Rightarrow> Awaiting f (rnd n) n rest)"

definition handle_of :: "drop_state \<Rightarrow> nat option" where
  "handle_of d = (case d of Awaiting f i h fs \<Rightarrow> Some h | Finished \<Rightarrow> None)"

definition awaited_id :: "drop_state \<Rightarrow> string option" where
  "awaited_id d = (case d of Awaiting f i h fs \<Rightarrow> Some i | Finished \<Rightarrow> None)"

text \<open>
  The invariant of the upload list: ids come from the generator and are distinct, progress
  is within bounds, every interval that is set belongs to the upload whose handle it has
  and that upload is not completed, and every awaited upload is still uploading.
\<close>

definition uploads_ok :: "(nat \<Rightarrow> string) \<Rightarrow> upload_world \<Rightarrow> bool" where
  "uploads_ok rnd w =
     ((\<forall>u\<in>set (uploads w). \<exists>n<created w. upload_id u = rnd n) \<and>
      distinct (map upload_id (uploads w)) \<and>
      (\<forall>u\<in>set (uploads w). 0 \<le> progress u \<and> progress u \<le> 100 \<and>
          (upload_status u \<noteq> UploadCompleted \<longrightarrow> progress u \<le> 90)))"

definition intervals_ok :: "(nat \<Rightarrow> string) \<Rightarrow> upload_world \<Rightarrow> bool" where
  "intervals_ok rnd w =
     ((\<forall>x\<in>set (intervals w). snd x = rnd (fst x) \<and> fst x < created w) \<and>
      (\<forall>x\<in>set (intervals w). \<forall>u\<in>set (uploads w).
          upload_id u = snd x \<longrightarrow> upload_status u \<noteq> UploadCompleted))"

definition drops_ok :: "(nat \<Rightarrow> string) \<Rightarrow> upload_world \<Rightarrow> bool" where
  "drops_ok rnd w =
     ((\<forall>d\<in>set (drops w). \<forall>h. handle_of d = Some h \<longrightarrow> awaited_id d = Some (rnd h) \<and> h < created w) \<and>
      (\<forall>b<length (drops w). \<forall>c<length (drops w). \<forall>h.
          handle_of (drops w ! b) = Some h \<and> handle_of (drops w ! c) = Some h \<longrightarrow> b = c) \<and>
      (\<forall>d\<in>set (drops w). \<forall>u\<in>set (uploads w).
          awaited_id d = Some (upload_id u) \<longrightarrow> upload_status u = Uploading))"

definition upload_inv :: "(nat \<Rightarrow> string) \<Rightarrow> upload_world \<Rightarrow> bool" where
  "upload_inv rnd w = (uploads_ok rnd w \<and> intervals_ok rnd w \<and> drops_ok rnd w)"

text \<open>The three updaters passed to \<^verbatim>\<open>setUploads\<close>.\<close>

definition complete :: "string \<Rightarrow> FileUpload \<Rightarrow> FileUpload" where
  "complete i u = (if upload_id u = i then u\<lparr>upload_status := UploadCompleted, progress := 100\<rparr> else u)"

definition fail :: "string \<Rightarrow> string \<Rightarrow> FileUpload \<Rightarrow> FileUpload" where
  "fail i m u = (if upload_id u = i then u\<lparr>upload_status := UploadError, upload_error := Some m\<rparr> else u)"

definition bump :: "string \<Rightarrow> FileUpload \<Rightarrow> FileUpload" where
  "bump i u = (if upload_id u = i then u\<lparr>progress := min (progress u + 10) 90\<rparr> else u)"

text \<open>
  The file a row was created for, the settlements of the uploads of one drop (\<open>None\<close> for
  a resolved upload, the thrown value for a rejected one), and the state of a single drop
  after \<open>j\<close> of them.
\<close>

definition file_of :: "FileUpload \<Rightarrow> File" where
  "file_of u = \<lparr>file_name = upload_name u, file_size = upload_size u, file_type = upload_type u\<rparr>"

definition settlements :: "nat \<Rightarrow> thrown option list \<Rightarrow> upload_event list" where
  "settlements b os = map (\<lambda>x. case x of None \<Rightarrow> UploadResolved b | Some e \<Rightarrow> UploadRejected b e) os"

definition batch_state :: "(nat \<Rightarrow> string) \<Rightarrow> File list \<Rightarrow> nat \<Rightarrow> upload_world \<Rightarrow> bool" where
  "batch_state rnd acc j w =
     (map file_of (uploads w) = take (Suc j) acc \<and>
      drops w = [next_state rnd j (drop j acc)] \<and>
      created w = min (Suc j) (length acc) \<and>
      (j < length acc \<longrightarrow> last (uploads w) = new_upload (rnd j) (acc ! j)))"

text \<open>The files an invocation of \<^verbatim>\<open>onDrop\<close> still holds.\<close>

definition files_of :: "drop_state \<Rightarrow> File list" where
  "files_of d = (case d of Awaiting f i h fs \<Rightarrow> f # fs | Finished \<Rightarrow> [])"

definition accepted_only :: "props \<Rightarrow> upload_world \<Rightarrow> bool" where
  "accepted_only cfg w =
     ((\<forall>u\<in>set (uploads w). dropzone_accepts cfg (file_of u)) \<and>
      (\<forall>d\<in>set (drops w). \<forall>f\<in>set (files_of d). dropzone_accepts cfg f))"

text \<open>Files and ids for the scenarios.\<close>

definition sample_ids :: "nat \<Rightarrow> string" where
  "sample_ids n = replicate (Suc n) (CHR ''k'')"

definition sales_csv :: File where
  "sales_csv = \<lparr>file_name = ''sales.csv'', file_size = 2 * 1024 * 1024, file_type = ''text/csv''\<rparr>"

definition costs_csv :: File where
  "costs_csv = \<lparr>file_name = ''costs.csv'', file_size = 3 * 1024 * 1024, file_type = ''text/csv''\<rparr>"

definition report_pdf :: File where
  "report_pdf = \<lparr>file_name = ''report.pdf'', file_size = 15 * 1024 * 1024, file_type = ''application/pdf''\<rparr>"

definition notes_txt :: File where
  "notes_txt = \<lparr>file_name = ''notes.txt'', file_size = 1024, file_type = ''text/plain''\<rparr>"

text \<open>
  The rows that a step appends to the list and the rows created along a run; the files
  still queued in the loops of the drops; the accepted files of the drops of a run; and the
  file whose turn a step is, if any.
\<close>

definition tasks_created :: "upload_world \<Rightarrow> upload_world \<Rightarrow> FileUpload list" where
  "tasks_created w w' = drop (length (uploads w)) (uploads w')"

fun task_log :: "props \<Rightarrow> (nat \<Rightarrow> string) \<Rightarrow> upload_event list \<Rightarrow> upload_world \<Rightarrow> FileUpload list" where
  "task_log cfg rnd [] w = []"
| "task_log cfg rnd (e # es) w =
     (case upload_step cfg rnd e w of
        None \<Rightarrow> []
      | Some w' \<Rightarrow> tasks_created w w' @ task_log cfg rnd es w')"

definition queued :: "drop_state \<Rightarrow> File list" where
  "queued d = (case d of Awaiting f i h fs \<Rightarrow> fs | Finished \<Rightarrow> [])"

definition waiting :: "upload_world \<Rightarrow> File list" where
  "waiting w = concat (map queued (drops w))"

definition accepted_dropped :: "props \<Rightarrow> upload_event list \<Rightarrow> File list" where
  "accepted_dropped cfg es =
     concat (map (\<lambda>e. case e of Drop files \<Rightarrow> filter (dropzone_accepts cfg) files | _ \<Rightarrow> []) es)"

definition turn :: "props \<Rightarrow> upload_event \<Rightarrow> upload_world \<Rightarrow> File list" where
  "turn cfg e w =
     (case e of
        Drop files \<Rightarrow> take 1 (filter (dropzone_accepts cfg) files)
      | UploadResolved b \<Rightarrow> take 1 (queued (drops w ! b))
      | UploadRejected b x \<Rightarrow> take 1 (queued (drops w ! b))
      | Tick h \<Rightarrow> []
      | Remove i \<Rightarrow> [])"

section \<open>Lemmas\<close>

subsection \<open>The timer queue\<close>

lemma set_enqueue: "set (enqueue x ts) = insert x (set ts)"
  by (induction ts) auto

lemma sorted_enqueue: "sorted (map fst ts) \<Longrightarrow> sorted (map fst (enqueue x ts))"
  by (induction ts) (auto simp: set_enqueue)

lemma filter_enqueue_other:
  "\<not> P (snd x) \<Longrightarrow> filter P (map snd (enqueue x ts)) = filter P (map snd ts)"
  by (induction ts) auto

lemma filter_enqueue_last:
  "sorted (map fst ts) \<Longrightarrow> \<forall>y\<in>set ts. P (snd y) \<longrightarrow> fst y \<le> fst x \<Longrightarrow> P (snd x) \<Longrightarrow>
   filter P (map snd (enqueue x ts)) = filter P (map snd ts) @ [snd x]"
proof (induction ts)
  case Nil
  then show ?case by simp
next
  case (Cons y ys)
  show ?case
  proof (cases "fst x < fst y")
    case True
    have "\<forall>z\<in>set (y # ys). \<not> P (snd z)"
    proof
      fix z assume z: "z \<in> set (y # ys)"
      with Cons.prems(1) have "fst y \<le> fst z" by auto
      with True have "\<not> fst z \<le> fst x" by simp
      with Cons.prems(2) z show "\<not> P (snd z)" by blast
    qed
    then have "filter P (map snd (y # ys)) = []"
      by (simp add: filter_empty_conv)
    with True Cons.prems(3) show ?thesis by simp
  next
    case False
    with Cons show ?thesis by auto
  qed
qed

subsection \<open>What each piece changes\<close>

lemma send_blocked: "blocked w \<Longrightarrow> handleSendMessage w = w"
  by (simp add: handleSendMessage_def)

lemma send_fields:
  assumes "\<not> blocked w"
  shows "now (handleSendMessage w) = now w"
    and "timers (handleSendMessage w) =
           enqueue (now w + 2500, Tick3 (length (invocations w)))
             (enqueue (now w + 1300, Tick2 (length (invocations w)))
               (enqueue (now w + 500, Tick1 (length (invocations w))) (timers w)))"
    and "invocations (handleSendMessage w) =
           invocations w @ [\<lparr>trace = new_trace (inputValue w), captured = the (selectedPersona w), call = Outstanding\<rparr>]"
    and "messages (handleSendMessage w) = messages w @ [userMessage (now w) (inputValue w)]"
    and "isProcessing (handleSendMessage w)"
    and "processingTrace (handleSendMessage w) = Some (new_trace (inputValue w))"
    and "inputValue (handleSendMessage w) = []"
    and "selectedPersona (handleSendMessage w) = selectedPersona w"
    and "suggestedQueriesState (handleSendMessage w) = suggestedQueriesState w"
  using assms
  by (auto simp: handleSendMessage_def blocked_def setTimeout_def Let_def split: option.splits)

lemma callback_fields:
  "now (run_callback cb w) = now w"
  "timers (run_callback cb w) = timers w"
  "invocations (run_callback cb w) =
     (invocations w)[owner cb := (invocations w ! owner cb)\<lparr>trace := cb_fun cb (trace (invocations w ! owner cb))\<rparr>]"
  "processingTrace (run_callback cb w) = Some (cb_fun cb (trace (invocations w ! owner cb)))"
  "inputValue (run_callback cb w) = inputValue w"
  "selectedPersona (run_callback cb w) = selectedPersona w"
  by (cases cb; simp add: mutate_and_publish_def cb_fun_def Let_def)+

lemma tick_fields:
  "\<not> is_final cb \<Longrightarrow> messages (run_callback cb w) = messages w"
  "\<not> is_final cb \<Longrightarrow> isProcessing (run_callback cb w) = isProcessing w"
  "\<not> is_final cb \<Longrightarrow> suggestedQueriesState (run_callback cb w) = suggestedQueriesState w"
  by (cases cb; simp add: mutate_and_publish_def is_final_def Let_def)+

lemma captured_update: "captured (xs[k := (xs ! k)\<lparr>trace := t\<rparr>] ! k) = captured (xs ! k)"
  by (cases "k < length xs") (simp_all add: list_update_beyond)

lemma final_fields:
  "messages (run_callback (Final k r) w) =
     messages w @ [assistantMessage (now w) (captured (invocations w ! k)) r]"
  "isProcessing (run_callback (Final k r) w) = False"
  "suggestedQueriesState (run_callback (Final k r) w) = suggested_queries r"
  by (simp_all add: mutate_and_publish_def Let_def captured_update)

lemma resolve_fields:
  "now (on_resolve k r w) = now w"
  "timers (on_resolve k r w) = enqueue (now w + 3500, Final k r) (timers w)"
  "invocations (on_resolve k r w) = (invocations w)[k := (invocations w ! k)\<lparr>call := Resolved r\<rparr>]"
  "messages (on_resolve k r w) = messages w"
  "isProcessing (on_resolve k r w) = isProcessing w"
  "processingTrace (on_resolve k r w) = processingTrace w"
  "inputValue (on_resolve k r w) = inputValue w"
  "selectedPersona (on_resolve k r w) = selectedPersona w"
  "suggestedQueriesState (on_resolve k r w) = suggestedQueriesState w"
  by (simp_all add: on_resolve_def setTimeout_def)

lemma reject_fields:
  "now (on_reject k w) = now w"
  "timers (on_reject k w) = timers w"
  "invocations (on_reject k w) = (invocations w)[k := (invocations w ! k)\<lparr>call := Rejected\<rparr>]"
  "messages (on_reject k w) = messages w @ [errorMessage (now w)]"
  "isProcessing (on_reject k w) = False"
  "processingTrace (on_reject k w) = None"
  "inputValue (on_reject k w) = inputValue w"
  "selectedPersona (on_reject k w) = selectedPersona w"
  "suggestedQueriesState (on_reject k w) = suggestedQueriesState w"
  by (simp_all add: on_reject_def)

subsection \<open>The stages of one trace object\<close>

lemmas stage_defs = stage0_def stage1_def stage2_def stage3_def stage4_def

lemmas tick_defs = tick1_def tick2_def tick3_def finish_def set_status_def set_duration_def new_trace_def

lemma stage_steps:
  "map status (steps (stage0 q)) = [Processing, Pending, Pending, Pending]"
  "map status (steps (stage1 q)) = [Completed, Processing, Pending, Pending]"
  "map status (steps (stage2 q)) = [Completed, Completed, Processing, Pending]"
  "map status (steps (stage3 q)) = [Completed, Completed, Completed, Processing]"
  "map status (steps (stage4 q r)) = [Completed, Completed, Completed, Completed]"
  by (simp_all add: stage_defs tick_defs numeral_2_eq_2 numeral_3_eq_3)

lemma stage_durations:
  "map duration (steps (stage0 q)) = [None, None, None, None]"
  "map duration (steps (stage1 q)) = [Some 500, None, None, None]"
  "map duration (steps (stage2 q)) = [Some 500, Some 800, None, None]"
  "map duration (steps (stage3 q)) = [Some 500, Some 800, Some 1200, None]"
  "map duration (steps (stage4 q r)) = [Some 500, Some 800, Some 1200, Some 1000]"
  by (simp_all add: stage_defs tick_defs numeral_2_eq_2 numeral_3_eq_3)

lemma stage_result:
  "finalResult (stage0 q) = None" "finalResult (stage1 q) = None"
  "finalResult (stage2 q) = None" "finalResult (stage3 q) = None"
  "finalResult (stage4 q r) = Some r"
  "totalDuration (stage0 q) = 0" "totalDuration (stage1 q) = 0"
  "totalDuration (stage2 q) = 0" "totalDuration (stage3 q) = 0"
  "totalDuration (stage4 q r) = 3500"
  by (simp_all add: stage_defs tick_defs)

lemma task_ok_new: "task_ok [Tick1 k, Tick2 k, Tick3 k] k \<lparr>trace = new_trace q, captured = p, call = Outstanding\<rparr>"
  unfolding task_ok_def by (rule exI [of _ q]) (simp add: stage0_def)

lemma task_ok_staged: "task_ok pend k iv \<Longrightarrow> staged (trace iv)"
  unfolding task_ok_def staged_def by blast

lemma tail_ok_Cons:
  "tail_ok c k (t # ts) (cb # pend) \<longleftrightarrow> cb = t \<and> tail_ok c k ts pend"
  by (cases c) auto

lemma tail_ok_Nil:
  "tail_ok c k [] (cb # pend) \<longleftrightarrow> (\<exists>r. c = Resolved r \<and> cb = Final k r \<and> pend = [])"
  by (cases c) auto

lemma task_ok_fire:
  assumes "task_ok (cb # pend) k iv"
  shows "task_ok pend k (iv\<lparr>trace := cb_fun cb (trace iv)\<rparr>)"
proof -
  from assms obtain q where
    "(trace iv = stage0 q \<and> cb = Tick1 k \<and> tail_ok (call iv) k [Tick2 k, Tick3 k] pend)
      \<or> (trace iv = stage1 q \<and> cb = Tick2 k \<and> tail_ok (call iv) k [Tick3 k] pend)
      \<or> (trace iv = stage2 q \<and> cb = Tick3 k \<and> tail_ok (call iv) k [] pend)
      \<or> (\<exists>r. trace iv = stage3 q \<and> call iv = Resolved r \<and> cb = Final k r \<and> pend = [])"
    unfolding task_ok_def tail_ok_Cons tail_ok_Nil by blast
  then show ?thesis
    unfolding task_ok_def
    by (intro exI [of _ q]) (auto simp: cb_fun_def stage1_def stage2_def stage3_def stage4_def)
qed

lemma in_flight_fire:
  assumes "task_ok (cb # pend) k iv"
  shows "in_flight (iv\<lparr>trace := cb_fun cb (trace iv)\<rparr>) = (in_flight iv \<and> \<not> is_final cb)"
    and "is_final cb \<Longrightarrow> in_flight iv"
proof -
  from assms obtain q where *:
    "(trace iv = stage0 q \<and> cb = Tick1 k)
      \<or> (trace iv = stage1 q \<and> cb = Tick2 k)
      \<or> (trace iv = stage2 q \<and> cb = Tick3 k)
      \<or> (\<exists>r. trace iv = stage3 q \<and> call iv = Resolved r \<and> cb = Final k r \<and> pend = [])"
    unfolding task_ok_def tail_ok_Cons tail_ok_Nil by blast
  have fr: "finalResult (tick1 (stage0 q)) = None" "finalResult (tick2 (stage1 q)) = None"
    "finalResult (tick3 (stage2 q)) = None" "\<And>r. finalResult (finish r (stage3 q)) = Some r"
    using stage_result [of q] by (simp_all add: stage_defs)
  from * show "in_flight (iv\<lparr>trace := cb_fun cb (trace iv)\<rparr>) = (in_flight iv \<and> \<not> is_final cb)"
    by (auto simp: in_flight_def cb_fun_def is_final_def fr stage_result split: call_state.splits)
  from * show "is_final cb \<Longrightarrow> in_flight iv"
    by (auto simp: in_flight_def is_final_def stage_result)
qed

lemma task_ok_resolve:
  assumes "task_ok pend k iv" "call iv = Outstanding"
  shows "task_ok (pend @ [Final k r]) k (iv\<lparr>call := Resolved r\<rparr>)"
    and "in_flight (iv\<lparr>call := Resolved r\<rparr>)" and "in_flight iv"
  using assms unfolding task_ok_def in_flight_def
  by (auto simp: stage_result)

lemma task_ok_reject:
  assumes "task_ok pend k iv" "call iv = Outstanding"
  shows "task_ok pend k (iv\<lparr>call := Rejected\<rparr>)"
    and "\<not> in_flight (iv\<lparr>call := Rejected\<rparr>)" and "in_flight iv"
  using assms unfolding task_ok_def in_flight_def
  by auto

subsection \<open>The invariant of the event loop\<close>

lemma length_filter_update:
  "k < length xs \<Longrightarrow>
   length (filter P (xs[k := y])) + (if P (xs ! k) then 1 else 0) =
   length (filter P xs) + (if P y then 1 else 0)"
proof (induction xs arbitrary: k)
  case Nil
  then show ?case by simp
next
  case (Cons x xs)
  show ?case
  proof (cases k)
    case 0
    then show ?thesis by simp
  next
    case (Suc j)
    with Cons.prems have "j < length xs" by simp
    from Cons.IH [OF this] Suc show ?thesis by simp
  qed
qed

lemma pending_enqueue_own:
  assumes "sorted (map fst ts)"
    and "\<And>y. y \<in> set ts \<Longrightarrow> owner (snd y) = k \<Longrightarrow> fst y \<le> t"
    and "owner c = k"
  shows "filter (\<lambda>cb. owner cb = k) (map snd (enqueue (t, c) ts)) =
         filter (\<lambda>cb. owner cb = k) (map snd ts) @ [c]"
  using filter_enqueue_last [of ts "\<lambda>cb. owner cb = k" "(t, c)"] assms by auto

lemma inv_mounted: "world_inv (mounted t)"
  by (simp add: world_inv_def inv_timers_def inv_tasks_def inv_flight_def in_flight_count_def
      inv_published_def mounted_def)

lemma inv_set_input: "world_inv w \<Longrightarrow> world_inv (w\<lparr>inputValue := s\<rparr>)"
  by (simp add: world_inv_def inv_timers_def inv_tasks_def inv_flight_def in_flight_count_def
      inv_published_def pending_of_def)

lemma inv_select: "world_inv w \<Longrightarrow> world_inv (w\<lparr>selectedPersona := p\<rparr>)"
  by (simp add: world_inv_def inv_timers_def inv_tasks_def inv_flight_def in_flight_count_def
      inv_published_def pending_of_def)

lemma inv_wait: "world_inv w \<Longrightarrow> world_inv (w\<lparr>now := now w + d\<rparr>)"
  by (fastforce simp add: world_inv_def inv_timers_def inv_tasks_def inv_flight_def in_flight_count_def
      inv_published_def pending_of_def)

lemma inv_send:
  assumes "world_inv w"
  shows "world_inv (handleSendMessage w)"
proof (cases "blocked w")
  case True
  with assms show ?thesis by (simp add: send_blocked)
next
  case False
  note f = send_fields [OF False]
  let ?k = "length (invocations w)"
  let ?t1 = "enqueue (now w + 500, Tick1 ?k) (timers w)"
  let ?t2 = "enqueue (now w + 1300, Tick2 ?k) ?t1"
  let ?t3 = "enqueue (now w + 2500, Tick3 ?k) ?t2"
  from assms have it: "inv_timers w" and ik: "inv_tasks w" and ifl: "inv_flight w"
    by (simp_all add: world_inv_def)
  from it have srt: "sorted (map fst (timers w))"
    and bnd: "\<forall>x\<in>set (timers w). fst x \<le> now w + 3500 \<and> owner (snd x) < ?k"
    by (simp_all add: inv_timers_def)
  have s1: "sorted (map fst ?t1)" and s2: "sorted (map fst ?t2)" and s3: "sorted (map fst ?t3)"
    using srt by (simp_all add: sorted_enqueue)
  have "inv_timers (handleSendMessage w)"
    using s3 bnd by (auto simp: inv_timers_def f set_enqueue)
  moreover have "inv_tasks (handleSendMessage w)"
    unfolding inv_tasks_def
  proof (intro allI impI)
    fix j assume "j < length (invocations (handleSendMessage w))"
    then have j: "j \<le> ?k" by (simp add: f)
    show "task_ok (pending_of j (handleSendMessage w)) j (invocations (handleSendMessage w) ! j)"
    proof (cases "j = ?k")
      case True
      have none: "filter (\<lambda>cb. owner cb = ?k) (map snd (timers w)) = []"
        using bnd by (auto simp: filter_empty_conv)
      have p1: "filter (\<lambda>cb. owner cb = ?k) (map snd ?t1) = [Tick1 ?k]"
      proof -
        have "\<And>y. y \<in> set (timers w) \<Longrightarrow> owner (snd y) = ?k \<Longrightarrow> fst y \<le> now w + 500"
          using bnd by auto
        from pending_enqueue_own [OF srt this] none show ?thesis by simp
      qed
      have p2: "filter (\<lambda>cb. owner cb = ?k) (map snd ?t2) = [Tick1 ?k, Tick2 ?k]"
      proof -
        have "\<And>y. y \<in> set ?t1 \<Longrightarrow> owner (snd y) = ?k \<Longrightarrow> fst y \<le> now w + 1300"
          using bnd by (auto simp: set_enqueue)
        from pending_enqueue_own [OF s1 this] p1 show ?thesis by simp
      qed
      have p3: "filter (\<lambda>cb. owner cb = ?k) (map snd ?t3) = [Tick1 ?k, Tick2 ?k, Tick3 ?k]"
      proof -
        have "\<And>y. y \<in> set ?t2 \<Longrightarrow> owner (snd y) = ?k \<Longrightarrow> fst y \<le> now w + 2500"
          using bnd by (auto simp: set_enqueue)
        from pending_enqueue_own [OF s2 this] p2 show ?thesis by simp
      qed
      show ?thesis
        using True p3 by (simp add: pending_of_def f task_ok_new)
    next
      case False
      with j have lt: "j < ?k" by simp
      have "pending_of j (handleSendMessage w) = pending_of j w"
        using False by (simp add: pending_of_def f filter_enqueue_other)
      moreover have "invocations (handleSendMessage w) ! j = invocations w ! j"
        using lt by (simp add: f nth_append)
      ultimately show ?thesis using ik lt by (simp add: inv_tasks_def)
    qed
  qed
  moreover have "inv_flight (handleSendMessage w)"
    using ifl False by (simp add: inv_flight_def in_flight_count_def f blocked_def in_flight_def)
  moreover have "inv_published (handleSendMessage w)"
    by (auto simp: inv_published_def f staged_def stage0_def)
  ultimately show ?thesis by (simp add: world_inv_def)
qed

lemma inv_fire:
  assumes "world_inv w" and tm: "timers w = (due, cb) # rest"
  shows "world_inv (run_callback cb (w\<lparr>timers := rest\<rparr>))"
proof -
  let ?w0 = "w\<lparr>timers := rest\<rparr>"
  let ?w' = "run_callback cb ?w0"
  let ?k = "owner cb"
  let ?iv = "invocations w ! ?k"
  let ?iv' = "?iv\<lparr>trace := cb_fun cb (trace ?iv)\<rparr>"
  note f = callback_fields [of cb ?w0]
  from assms have it: "inv_timers w" and ik: "inv_tasks w" and ifl: "inv_flight w"
    by (simp_all add: world_inv_def)
  from it tm have k: "?k < length (invocations w)"
    by (simp add: inv_timers_def)
  have invs: "invocations ?w' = (invocations w)[?k := ?iv']"
    by (simp add: f)
  have pend_k: "pending_of ?k w = cb # pending_of ?k ?w'"
    by (simp add: pending_of_def tm f)
  from ik k have ok: "task_ok (cb # pending_of ?k ?w') ?k ?iv"
    by (simp add: inv_tasks_def pend_k [symmetric])
  have ok': "task_ok (pending_of ?k ?w') ?k ?iv'"
    by (rule task_ok_fire [OF ok])
  have "inv_timers ?w'"
    using it tm by (simp add: inv_timers_def f)
  moreover have "inv_tasks ?w'"
    unfolding inv_tasks_def
  proof (intro allI impI)
    fix j assume "j < length (invocations ?w')"
    then have j: "j < length (invocations w)" by (simp add: invs)
    show "task_ok (pending_of j ?w') j (invocations ?w' ! j)"
    proof (cases "j = ?k")
      case True
      with ok' k show ?thesis by (simp add: invs)
    next
      case False
      then have "pending_of j ?w' = pending_of j w"
        by (simp add: pending_of_def tm f)
      moreover from False have "invocations ?w' ! j = invocations w ! j"
        by (simp add: invs)
      ultimately show ?thesis using ik j by (simp add: inv_tasks_def)
    qed
  qed
  moreover have "inv_flight ?w'"
  proof -
    have cnt: "in_flight_count ?w' + (if in_flight ?iv then 1 else 0) =
               in_flight_count w + (if in_flight ?iv' then 1 else 0)"
      unfolding in_flight_count_def invs by (rule length_filter_update [OF k])
    show ?thesis
    proof (cases "is_final cb")
      case False
      then have "in_flight ?iv' = in_flight ?iv"
        by (simp add: in_flight_fire(1) [OF ok])
      with cnt have "in_flight_count ?w' = in_flight_count w" by simp
      with ifl False show ?thesis by (simp add: inv_flight_def tick_fields)
    next
      case True
      then obtain j r where cb: "cb = Final j r"
        by (cases cb) (simp_all add: is_final_def)
      from True have a: "in_flight ?iv" and b: "\<not> in_flight ?iv'"
        by (simp_all add: in_flight_fire [OF ok])
      from ifl have "in_flight_count w \<le> 1" by (simp add: inv_flight_def)
      with cnt a b have "in_flight_count ?w' = 0" by simp
      then show ?thesis by (simp add: inv_flight_def cb final_fields del: run_callback.simps)
    qed
  qed
  moreover have "inv_published ?w'"
    using task_ok_staged [OF ok'] by (simp add: inv_published_def f)
  ultimately show ?thesis by (simp add: world_inv_def)
qed

lemma inv_resolve:
  assumes "world_inv w" and out: "outstanding k w"
  shows "world_inv (on_resolve k r w)"
proof -
  let ?w' = "on_resolve k r w"
  let ?iv = "invocations w ! k"
  let ?iv' = "?iv\<lparr>call := Resolved r\<rparr>"
  note f = resolve_fields [of k r w]
  from assms have it: "inv_timers w" and ik: "inv_tasks w" and ifl: "inv_flight w"
    and ip: "inv_published w"
    by (simp_all add: world_inv_def)
  from out have k: "k < length (invocations w)" and c: "call ?iv = Outstanding"
    by (simp_all add: outstanding_def)
  from it have srt: "sorted (map fst (timers w))"
    and bnd: "\<forall>x\<in>set (timers w). fst x \<le> now w + 3500 \<and> owner (snd x) < length (invocations w)"
    by (simp_all add: inv_timers_def)
  from ik k have ok: "task_ok (pending_of k w) k ?iv" by (simp add: inv_tasks_def)
  have "inv_timers ?w'"
    using srt bnd k by (auto simp: inv_timers_def f set_enqueue sorted_enqueue)
  moreover have "inv_tasks ?w'"
    unfolding inv_tasks_def
  proof (intro allI impI)
    fix j assume "j < length (invocations ?w')"
    then have j: "j < length (invocations w)" by (simp add: f)
    show "task_ok (pending_of j ?w') j (invocations ?w' ! j)"
    proof (cases "j = k")
      case True
      have "\<And>y. y \<in> set (timers w) \<Longrightarrow> owner (snd y) = k \<Longrightarrow> fst y \<le> now w + 3500"
        using bnd by auto
      from pending_enqueue_own [OF srt this, where c = "Final k r"]
      have "pending_of k ?w' = pending_of k w @ [Final k r]"
        by (simp add: pending_of_def f)
      with task_ok_resolve(1) [OF ok c, of r] True k show ?thesis by (simp add: f)
    next
      case False
      then have "pending_of j ?w' = pending_of j w"
        by (simp add: pending_of_def f filter_enqueue_other)
      moreover from False have "invocations ?w' ! j = invocations w ! j"
        by (simp add: f)
      ultimately show ?thesis using ik j by (simp add: inv_tasks_def)
    qed
  qed
  moreover have "inv_flight ?w'"
  proof -
    have "in_flight_count ?w' + (if in_flight ?iv then 1 else 0) =
          in_flight_count w + (if in_flight ?iv' then 1 else 0)"
      unfolding in_flight_count_def f by (rule length_filter_update [OF k])
    with task_ok_resolve(2,3) [OF ok c] have "in_flight_count ?w' = in_flight_count w"
      by simp
    with ifl show ?thesis by (simp add: inv_flight_def f)
  qed
  moreover have "inv_published ?w'"
    using ip by (simp add: inv_published_def f)
  ultimately show ?thesis by (simp add: world_inv_def)
qed

lemma inv_reject:
  assumes "world_inv w" and out: "outstanding k w"
  shows "world_inv (on_reject k w)"
proof -
  let ?w' = "on_reject k w"
  let ?iv = "invocations w ! k"
  let ?iv' = "?iv\<lparr>call := Rejected\<rparr>"
  note f = reject_fields [of k w]
  from assms have it: "inv_timers w" and ik: "inv_tasks w" and ifl: "inv_flight w"
    by (simp_all add: world_inv_def)
  from out have k: "k < length (invocations w)" and c: "call ?iv = Outstanding"
    by (simp_all add: outstanding_def)
  from ik k have ok: "task_ok (pending_of k w) k ?iv" by (simp add: inv_tasks_def)
  have "inv_timers ?w'"
    using it by (simp add: inv_timers_def f)
  moreover have "inv_tasks ?w'"
    unfolding inv_tasks_def
  proof (intro allI impI)
    fix j assume "j < length (invocations ?w')"
    then have j: "j < length (invocations w)" by (simp add: f)
    have p: "\<And>i. pending_of i ?w' = pending_of i w"
      by (simp add: pending_of_def f)
    show "task_ok (pending_of j ?w') j (invocations ?w' ! j)"
    proof (cases "j = k")
      case True
      with task_ok_reject(1) [OF ok c] k show ?thesis by (simp add: f p)
    next
      case False
      then have "invocations ?w' ! j = invocations w ! j"
        by (simp add: f)
      with p show ?thesis using ik j by (simp add: inv_tasks_def)
    qed
  qed
  moreover have "inv_flight ?w'"
  proof -
    have "in_flight_count ?w' + (if in_flight ?iv then 1 else 0) =
          in_flight_count w + (if in_flight ?iv' then 1 else 0)"
      unfolding in_flight_count_def f by (rule length_filter_update [OF k])
    moreover from ifl have "in_flight_count w \<le> 1" by (simp add: inv_flight_def)
    ultimately have "in_flight_count ?w' = 0"
      using task_ok_reject(2,3) [OF ok c] by simp
    then show ?thesis by (simp add: inv_flight_def f)
  qed
  moreover have "inv_published ?w'"
    by (simp add: inv_published_def f)
  ultimately show ?thesis by (simp add: world_inv_def)
qed

lemma inv_step: "world_inv w \<Longrightarrow> step e w = Some w' \<Longrightarrow> world_inv w'"
proof (cases e)
  case Fire
  assume "world_inv w" "step e w = Some w'"
  with Fire show ?thesis
    by (auto simp: inv_fire split: list.splits if_splits)
qed (auto simp: inv_set_input inv_select inv_send inv_wait inv_resolve inv_reject split: if_splits)

lemma inv_run: "world_inv w \<Longrightarrow> run es w = Some w' \<Longrightarrow> world_inv w'"
  by (induction es arbitrary: w) (auto dest: inv_step split: option.splits)

lemma inv_reachable: "run es (mounted t) = Some w \<Longrightarrow> world_inv w"
  using inv_run [OF inv_mounted] .

subsection \<open>Evaluating a timeline\<close>

declare advance.simps [simp del]

lemma advance_done: "timers w = [] \<Longrightarrow> advance s t w = w\<lparr>now := max (now w) t\<rparr>"
  by (subst advance.simps) simp

lemma advance_fire:
  "timers w = (due, cb) # rest \<Longrightarrow> (if s then due < t else due \<le> t) \<Longrightarrow>
   advance s t w = advance s t (run_callback cb (w\<lparr>now := max (now w) due, timers := rest\<rparr>))"
  by (subst advance.simps) simp

lemma advance_stop:
  "timers w = (due, cb) # rest \<Longrightarrow> \<not> (if s then due < t else due \<le> t) \<Longrightarrow>
   advance s t w = w\<lparr>now := max (now w) t\<rparr>"
  by (subst advance.simps) simp

lemma submit_fields:
  assumes "trim q \<noteq> []"
  shows "now (submit p q t0) = t0"
    and "timers (submit p q t0) = [(t0 + 500, Tick1 0), (t0 + 1300, Tick2 0), (t0 + 2500, Tick3 0)]"
    and "invocations (submit p q t0) = [\<lparr>trace = stage0 q, captured = p, call = Outstanding\<rparr>]"
    and "messages (submit p q t0) = [welcome_message t0, userMessage t0 q]"
    and "isProcessing (submit p q t0)"
    and "processingTrace (submit p q t0) = Some (stage0 q)"
proof -
  let ?w = "(mounted t0)\<lparr>selectedPersona := Some p, inputValue := q\<rparr>"
  from assms have nb: "\<not> blocked ?w" by (simp add: blocked_def mounted_def)
  note f = send_fields [OF nb]
  show "now (submit p q t0) = t0" "invocations (submit p q t0) = [\<lparr>trace = stage0 q, captured = p, call = Outstanding\<rparr>]"
    "messages (submit p q t0) = [welcome_message t0, userMessage t0 q]"
    "isProcessing (submit p q t0)" "processingTrace (submit p q t0) = Some (stage0 q)"
    "timers (submit p q t0) = [(t0 + 500, Tick1 0), (t0 + 1300, Tick2 0), (t0 + 2500, Tick3 0)]"
    unfolding submit_def by (simp_all add: f stage0_def) (simp_all add: mounted_def)
qed

declare run_callback.simps [simp del]

lemma map_update_same: "f y = f (xs ! k) \<Longrightarrow> map f (xs[k := y]) = map f xs"
  by (cases "k < length xs") (simp_all add: map_update list_update_beyond list_update_same_conv)

lemma now_advance: "now (advance s t w) = max (now w) t"
proof (induction s t w rule: advance.induct)
  case (1 s t w)
  show ?case
  proof (cases "timers w")
    case Nil
    then show ?thesis by (simp add: advance_done)
  next
    case (Cons x rest)
    obtain due cb where x: "x = (due, cb)" by (cases x)
    show ?thesis
    proof (cases "if s then due < t else due \<le> t")
      case True
      from "1.IH" [OF Cons [unfolded x] refl True] True show ?thesis
        unfolding advance_fire [OF Cons [unfolded x] True]
        by (auto simp: callback_fields split: if_splits)
    next
      case False
      then show ?thesis by (simp add: advance_stop [OF Cons [unfolded x] False])
    qed
  qed
qed

lemma advance_ticks_only:
  "\<forall>x\<in>set (timers w). is_final (snd x) \<longrightarrow> t < fst x \<Longrightarrow>
   messages (advance s t w) = messages w \<and> isProcessing (advance s t w) = isProcessing w \<and>
   set (timers (advance s t w)) \<subseteq> set (timers w) \<and>
   map call (invocations (advance s t w)) = map call (invocations w) \<and>
   map captured (invocations (advance s t w)) = map captured (invocations w)"
proof (induction s t w rule: advance.induct)
  case (1 s t w)
  show ?case
  proof (cases "timers w")
    case Nil
    then show ?thesis by (simp add: advance_done)
  next
    case (Cons x rest)
    obtain due cb where x: "x = (due, cb)" by (cases x)
    note tm = Cons [unfolded x]
    show ?thesis
    proof (cases "if s then due < t else due \<le> t")
      case True
      let ?w1 = "run_callback cb (w\<lparr>now := max (now w) due, timers := rest\<rparr>)"
      from True "1.prems" tm have nf: "\<not> is_final cb" by (auto split: if_splits)
      have "\<forall>x\<in>set (timers ?w1). is_final (snd x) \<longrightarrow> t < fst x"
        using "1.prems" tm by (simp add: callback_fields)
      from "1.IH" [OF tm refl True this] nf tm show ?thesis
        unfolding advance_fire [OF tm True]
        by (auto simp: callback_fields tick_fields map_update_same)
    next
      case False
      then show ?thesis by (simp add: advance_stop [OF tm False])
    qed
  qed
qed

lemmas eval_simps = advance_fire advance_stop advance_done callback_fields
  tick_fields final_fields resolve_fields reject_fields is_final_def cb_fun_def

lemma timeline_success_done:
  assumes q: "trim q \<noteq> []" and t: "T + 3500 \<le> t"
  shows "processingTrace (timeline p q t0 (Succeeds r) T b t) = Some (stage4 q r)"
    and "messages (timeline p q t0 (Succeeds r) T b t) =
           [welcome_message t0, userMessage t0 q, assistantMessage (t0 + T + 3500) p r]"
    and "\<not> isProcessing (timeline p q t0 (Succeeds r) T b t)"
proof -
  consider (a) "T < 500" | (b) "T = 500" | (c) "500 < T" "T < 1300" | (d) "T = 1300"
    | (e) "1300 < T" "T < 2500" | (f) "T = 2500" | (g) "2500 < T"
    by linarith
  then have "processingTrace (timeline p q t0 (Succeeds r) T b t) = Some (stage4 q r) \<and>
    messages (timeline p q t0 (Succeeds r) T b t) =
           [welcome_message t0, userMessage t0 q, assistantMessage (t0 + T + 3500) p r] \<and>
    \<not> isProcessing (timeline p q t0 (Succeeds r) T b t)"
  proof cases
    case a
    with t show ?thesis
      by (simp add: timeline_def settle_def submit_fields [OF q] eval_simps stage_defs)
  next
    case b
    with t show ?thesis
      by (cases b) (simp_all add: timeline_def settle_def submit_fields [OF q] eval_simps stage_defs)
  next
    case c
    with t show ?thesis
      by (simp add: timeline_def settle_def submit_fields [OF q] eval_simps stage_defs)
  next
    case d
    with t show ?thesis
      by (cases b) (simp_all add: timeline_def settle_def submit_fields [OF q] eval_simps stage_defs)
  next
    case e
    with t show ?thesis
      by (simp add: timeline_def settle_def submit_fields [OF q] eval_simps stage_defs)
  next
    case f
    with t show ?thesis
      by (cases b) (simp_all add: timeline_def settle_def submit_fields [OF q] eval_simps stage_defs)
  next
    case g
    with t show ?thesis
      by (simp add: timeline_def settle_def submit_fields [OF q] eval_simps stage_defs)
  qed
  then show "processingTrace (timeline p q t0 (Succeeds r) T b t) = Some (stage4 q r)"
    and "messages (timeline p q t0 (Succeeds r) T b t) =
           [welcome_message t0, userMessage t0 q, assistantMessage (t0 + T + 3500) p r]"
    and "\<not> isProcessing (timeline p q t0 (Succeeds r) T b t)" by simp_all
qed

lemma timeline_success_pending:
  assumes q: "trim q \<noteq> []" and t: "t < T + 3500"
  shows "isProcessing (timeline p q t0 (Succeeds r) T b t) \<and>
         messages (timeline p q t0 (Succeeds r) T b t) = [welcome_message t0, userMessage t0 q]"
proof (cases "t < T")
  case True
  have "\<forall>x\<in>set (timers (submit p q t0)). is_final (snd x) \<longrightarrow> t0 + t < fst x"
    by (simp add: submit_fields [OF q] is_final_def)
  from advance_ticks_only [OF this, where s = False] True show ?thesis
    by (simp add: timeline_def submit_fields [OF q])
next
  case False
  let ?w1 = "advance b (t0 + T) (submit p q t0)"
  let ?w2 = "on_resolve 0 r ?w1"
  have nf: "\<forall>x\<in>set (timers (submit p q t0)). is_final (snd x) \<longrightarrow> t0 + T < fst x"
    by (simp add: submit_fields [OF q] is_final_def)
  note a1 = advance_ticks_only [OF nf, where s = b]
  from a1 have sub: "set (timers ?w1) \<subseteq> set (timers (submit p q t0))" by simp
  have "\<forall>x\<in>set (timers ?w2). is_final (snd x) \<longrightarrow> t0 + t < fst x"
  proof
    fix x assume "x \<in> set (timers ?w2)"
    then have "x = (t0 + T + 3500, Final 0 r) \<or> x \<in> set (timers (submit p q t0))"
      using sub by (auto simp: resolve_fields set_enqueue now_advance submit_fields [OF q])
    then show "is_final (snd x) \<longrightarrow> t0 + t < fst x"
      using t by (auto simp: submit_fields [OF q] is_final_def)
  qed
  from advance_ticks_only [OF this, where s = False] a1 False show ?thesis
    by (simp add: timeline_def settle_def resolve_fields submit_fields [OF q])
qed

lemma timeline_failure:
  assumes q: "trim q \<noteq> []"
  shows "t < T \<Longrightarrow> isProcessing (timeline p q t0 Fails T b t) \<and>
           messages (timeline p q t0 Fails T b t) = [welcome_message t0, userMessage t0 q]"
    and "T \<le> t \<Longrightarrow> \<not> isProcessing (timeline p q t0 Fails T b t) \<and>
           messages (timeline p q t0 Fails T b t) =
             [welcome_message t0, userMessage t0 q, errorMessage (t0 + T)]"
proof -
  have nf: "\<And>u. \<forall>x\<in>set (timers (submit p q t0)). is_final (snd x) \<longrightarrow> u < fst x"
    by (simp add: submit_fields [OF q] is_final_def)
  show "t < T \<Longrightarrow> isProcessing (timeline p q t0 Fails T b t) \<and>
           messages (timeline p q t0 Fails T b t) = [welcome_message t0, userMessage t0 q]"
    using advance_ticks_only [OF nf, where t = "t0 + t" and s = False]
    by (simp add: timeline_def submit_fields [OF q])
  let ?w1 = "advance b (t0 + T) (submit p q t0)"
  let ?w2 = "on_reject 0 ?w1"
  note a1 = advance_ticks_only [OF nf, where t = "t0 + T" and s = b]
  have "\<forall>x\<in>set (timers ?w2). is_final (snd x) \<longrightarrow> t0 + t < fst x"
    using a1 nf by (auto simp: reject_fields)
  from advance_ticks_only [OF this, where s = False] a1
  show "T \<le> t \<Longrightarrow> \<not> isProcessing (timeline p q t0 Fails T b t) \<and>
           messages (timeline p q t0 Fails T b t) =
             [welcome_message t0, userMessage t0 q, errorMessage (t0 + T)]"
    by (simp add: timeline_def settle_def reject_fields submit_fields [OF q] now_advance)
qed

subsection \<open>Timelines are runs of the event loop\<close>

lemma run_append: "run (es @ fs) w = (case run es w of None \<Rightarrow> None | Some w' \<Rightarrow> run fs w')"
  by (induction es arbitrary: w) (auto split: option.splits)

lemma reachable_step: "reachable w \<Longrightarrow> step e w = Some w' \<Longrightarrow> reachable w'"
proof -
  assume "reachable w" and s: "step e w = Some w'"
  then obtain es t where "run es (mounted t) = Some w" by (auto simp: reachable_def)
  with s have "run (es @ [e]) (mounted t) = Some w'" by (simp add: run_append)
  then show ?thesis unfolding reachable_def by blast
qed

lemma reachable_inv: "reachable w \<Longrightarrow> world_inv w"
  by (auto simp: reachable_def dest: inv_reachable)

lemma reachable_wait: "reachable w \<Longrightarrow> reachable (w\<lparr>now := max (now w) t\<rparr>)"
proof -
  assume r: "reachable w"
  have "step (Wait (max (now w) t - now w)) w = Some (w\<lparr>now := max (now w) t\<rparr>)" by simp
  from reachable_step [OF r this] show ?thesis .
qed

lemma reachable_advance: "reachable w \<Longrightarrow> reachable (advance s t w)"
proof (induction s t w rule: advance.induct)
  case (1 s t w)
  show ?case
  proof (cases "timers w")
    case Nil
    with "1.prems" show ?thesis by (simp add: advance_done reachable_wait)
  next
    case (Cons x rest)
    obtain due cb where x: "x = (due, cb)" by (cases x)
    note tm = Cons [unfolded x]
    show ?thesis
    proof (cases "if s then due < t else due \<le> t")
      case True
      let ?w0 = "w\<lparr>now := max (now w) due\<rparr>"
      have "step Fire ?w0 = Some (run_callback cb (?w0\<lparr>timers := rest\<rparr>))"
        using tm by simp
      from reachable_step [OF reachable_wait [OF "1.prems"] this]
      have "reachable (run_callback cb (w\<lparr>now := max (now w) due, timers := rest\<rparr>))" by simp
      from "1.IH" [OF tm refl True this] show ?thesis
        by (simp add: advance_fire [OF tm True])
    next
      case False
      with "1.prems" show ?thesis by (simp add: advance_stop [OF tm False] reachable_wait)
    qed
  qed
qed

lemma reachable_submit: "reachable (submit p q t0)"
proof -
  have "run [SelectPersona p, SetInput q, Send] (mounted t0) = Some (submit p q t0)"
    by (simp add: submit_def)
  then show ?thesis unfolding reachable_def by blast
qed

lemma reachable_timeline:
  assumes q: "trim q \<noteq> []"
  shows "reachable (timeline p q t0 oc T b t)"
proof (cases "t < T")
  case True
  then show ?thesis by (simp add: timeline_def reachable_advance reachable_submit)
next
  case False
  let ?w1 = "advance b (t0 + T) (submit p q t0)"
  have r1: "reachable ?w1" by (simp add: reachable_advance reachable_submit)
  have "\<forall>x\<in>set (timers (submit p q t0)). is_final (snd x) \<longrightarrow> t0 + T < fst x"
    by (simp add: submit_fields [OF q] is_final_def)
  from advance_ticks_only [OF this, where s = b]
  have "map call (invocations ?w1) = [Outstanding]" by (simp add: submit_fields [OF q])
  then have out: "outstanding 0 ?w1"
    by (cases "invocations ?w1") (auto simp: outstanding_def)
  have "step (case oc of Succeeds r \<Rightarrow> Resolve 0 r | Fails \<Rightarrow> Reject 0) ?w1 = Some (settle 0 oc ?w1)"
    using out by (cases oc) (simp_all add: settle_def)
  from reachable_step [OF r1 this] False show ?thesis
    by (simp add: timeline_def reachable_advance)
qed

subsection \<open>Consequences of the invariant\<close>

lemma trim_empty_iff: "trim s = [] \<longleftrightarrow> (\<forall>c\<in>set s. is_space c)"
proof -
  have "trim s = [] \<longleftrightarrow> (\<forall>c\<in>set (dropWhile is_space s). is_space c)"
    by (simp add: trim_def dropWhile_eq_Nil_conv)
  also have "\<dots> \<longleftrightarrow> dropWhile is_space s = []"
  proof
    assume a: "\<forall>c\<in>set (dropWhile is_space s). is_space c"
    show "dropWhile is_space s = []"
    proof (rule ccontr)
      assume "dropWhile is_space s \<noteq> []"
      then have "\<not> is_space (hd (dropWhile is_space s))" "hd (dropWhile is_space s) \<in> set (dropWhile is_space s)"
        by (simp_all add: hd_dropWhile)
      with a show False by blast
    qed
  next
    assume "dropWhile is_space s = []"
    then show "\<forall>c\<in>set (dropWhile is_space s). is_space c" by (auto dest: set_dropWhileD)
  qed
  also have "\<dots> \<longleftrightarrow> (\<forall>c\<in>set s. is_space c)"
    by (simp add: dropWhile_eq_Nil_conv)
  finally show ?thesis .
qed

lemma revenue_query_not_blank: "trim revenue_query \<noteq> []"
  by (simp add: trim_empty_iff revenue_query_def is_space_def)

lemma staged_patterns:
  assumes "staged tr"
  shows "map status (steps tr) \<in>
           {[Processing, Pending, Pending, Pending], [Completed, Processing, Pending, Pending],
            [Completed, Completed, Processing, Pending], [Completed, Completed, Completed, Processing],
            [Completed, Completed, Completed, Completed]}"
  using assms unfolding staged_def by (auto simp: stage_steps)

lemma traces_staged:
  assumes "world_inv w" "tr \<in> traces w"
  shows "staged tr"
proof -
  from assms(2) consider (a) k where "k < length (invocations w)" "tr = trace (invocations w ! k)"
    | (b) "processingTrace w = Some tr"
    by (auto simp: traces_def in_set_conv_nth)
  then show ?thesis
  proof cases
    case a
    with assms(1) show ?thesis by (auto simp: world_inv_def inv_tasks_def dest: task_ok_staged)
  next
    case b
    with assms(1) show ?thesis by (simp add: world_inv_def inv_published_def)
  qed
qed

lemma pattern_in_order:
  assumes "map status (steps tr) \<in>
           {[Processing, Pending, Pending, Pending], [Completed, Processing, Pending, Pending],
            [Completed, Completed, Processing, Pending], [Completed, Completed, Completed, Processing],
            [Completed, Completed, Completed, Completed]}"
    and "i < 3" and "status (steps tr ! Suc i) \<in> {Processing, Completed}"
  shows "status (steps tr ! i) = Completed"
proof -
  from assms(1) have len: "length (steps tr) = 4"
    by (auto dest: arg_cong [where f = length])
  with assms(2) have n: "status (steps tr ! i) = map status (steps tr) ! i"
    "status (steps tr ! Suc i) = map status (steps tr) ! Suc i"
    by simp_all
  from assms(2) consider "i = 0" | "i = 1" | "i = 2" by linarith
  then show ?thesis
    using assms(1,3) unfolding n by cases (auto simp: numeral_2_eq_2 numeral_3_eq_3)
qed

lemma in_flight_bound: "world_inv w \<Longrightarrow> in_flight_count w \<le> 1 \<and> (isProcessing w \<longleftrightarrow> in_flight_count w = 1)"
  by (simp add: world_inv_def inv_flight_def)

lemma run_submit:
  "run (SelectPersona p # SetInput q # Send # es) (mounted t0) = run es (submit p q t0)"
  by (simp add: submit_def)

lemmas concrete_simps = timeline_def settle_def eval_simps
  submit_fields [OF revenue_query_not_blank] stage_defs

lemma in_flight_processing:
  assumes "world_inv w" "k < length (invocations w)" "in_flight (invocations w ! k)"
  shows "isProcessing w"
proof (rule ccontr)
  assume "\<not> isProcessing w"
  with assms(1) have "filter in_flight (invocations w) = []"
    by (simp add: world_inv_def inv_flight_def in_flight_count_def)
  with assms(2,3) show False
    by (metis filter_empty_conv nth_mem)
qed

lemma task_outcome:
  assumes "world_inv w" "k < length (invocations w)"
  shows "case call (invocations w ! k) of
           Outstanding \<Rightarrow> isProcessing w \<and> finalResult (trace (invocations w ! k)) = None
         | Resolved r \<Rightarrow> finalResult (trace (invocations w ! k)) = Some r \<or>
                         finalResult (trace (invocations w ! k)) = None \<and> isProcessing w
         | Rejected \<Rightarrow> finalResult (trace (invocations w ! k)) = None"
proof -
  let ?iv = "invocations w ! k"
  from assms have ok: "task_ok (pending_of k w) k ?iv"
    by (simp add: world_inv_def inv_tasks_def)
  note fl = in_flight_processing [OF assms]
  show ?thesis
  proof (cases "call ?iv")
    case Outstanding
    with ok have "finalResult (trace ?iv) = None"
      by (auto simp: task_ok_def stage_result)
    with Outstanding fl show ?thesis by (simp add: in_flight_def)
  next
    case (Resolved r)
    with ok have "finalResult (trace ?iv) = Some r \<or> finalResult (trace ?iv) = None"
      by (auto simp: task_ok_def stage_result)
    with Resolved fl show ?thesis by (auto simp: in_flight_def)
  next
    case Rejected
    with ok have "finalResult (trace ?iv) = None"
      by (auto simp: task_ok_def stage_result)
    with Rejected show ?thesis by simp
  qed
qed

subsection \<open>The transcript\<close>

lemma shown_simps:
  "shown (userMessage t inp) = (User, inp, None)"
  "shown (assistantMessage t p r) =
     (Assistant, response r,
      Some \<lparr>persona = persona_name p, suggestedQueries = suggested_queries r,
            processingTime = processing_time r\<rparr>)"
  "shown (errorMessage t) =
     (Assistant, ''Sorry, I encountered an error processing your query. Please try again.'', None)"
  by (simp_all add: shown_def userMessage_def assistantMessage_def errorMessage_def fallback_text_def)

lemma query_tick:
  "query (tick1 tr) = query tr" "query (tick2 tr) = query tr" "query (tick3 tr) = query tr"
  "query (finish r tr) = query tr"
  by (simp_all add: tick_defs)

lemma query_kept: "query (cb_fun cb tr) = query tr"
  by (cases cb) (simp_all add: cb_fun_def query_tick)

lemma stage_query:
  "query (stage0 q) = q" "query (stage1 q) = q" "query (stage2 q) = q" "query (stage3 q) = q"
  "query (stage4 q r) = q"
  by (simp_all add: stage_defs tick_defs)

lemma concat_update_same:
  "f y = f (xs ! k) \<Longrightarrow> concat (map f (xs[k := y])) = concat (map f xs)"
  by (simp add: map_update_same)

lemma concat_update_last:
  assumes "Suc k = length xs" and "f y = f (xs ! k) @ z"
  shows "concat (map f (xs[k := y])) = concat (map f xs) @ z"
proof -
  from assms(1) obtain ys x where xs: "xs = ys @ [x]"
    by (cases xs rule: rev_cases) auto
  with assms(1) have k: "k = length ys" by simp
  from assms(2) show ?thesis by (simp add: xs k)
qed

lemma in_flight_is_last:
  assumes "last_only w" "k < length (invocations w)" "in_flight (invocations w ! k)"
  shows "Suc k = length (invocations w)"
proof (rule ccontr)
  assume "Suc k \<noteq> length (invocations w)"
  with assms(2) have "Suc k < length (invocations w)" by simp
  with assms(1,3) show False by (simp add: last_only_def)
qed

lemma exchange_fire:
  assumes "task_ok (cb # pend) k iv"
  shows "\<not> is_final cb \<Longrightarrow> exchange (iv\<lparr>trace := cb_fun cb (trace iv)\<rparr>) = exchange iv"
    and "cb = Final j r \<Longrightarrow>
         exchange (iv\<lparr>trace := cb_fun cb (trace iv)\<rparr>) =
           exchange iv @ [shown (assistantMessage t (captured iv) r)]"
proof -
  from assms obtain q where *:
    "(trace iv = stage0 q \<and> cb = Tick1 k)
      \<or> (trace iv = stage1 q \<and> cb = Tick2 k)
      \<or> (trace iv = stage2 q \<and> cb = Tick3 k)
      \<or> (\<exists>r. trace iv = stage3 q \<and> call iv = Resolved r \<and> cb = Final k r \<and> pend = [])"
    unfolding task_ok_def tail_ok_Cons tail_ok_Nil by blast
  have fr: "finalResult (tick1 (stage0 q)) = None" "finalResult (tick2 (stage1 q)) = None"
    "finalResult (tick3 (stage2 q)) = None" "\<And>r. finalResult (finish r (stage3 q)) = Some r"
    using stage_result [of q] by (simp_all add: stage_defs)
  from * show "\<not> is_final cb \<Longrightarrow> exchange (iv\<lparr>trace := cb_fun cb (trace iv)\<rparr>) = exchange iv"
    by (auto simp: exchange_def reply_def query_tick is_final_def cb_fun_def fr stage_result
        split: call_state.splits)
  from * show "cb = Final j r \<Longrightarrow>
         exchange (iv\<lparr>trace := cb_fun cb (trace iv)\<rparr>) =
           exchange iv @ [shown (assistantMessage t (captured iv) r)]"
    by (auto simp: exchange_def reply_def query_tick cb_fun_def fr stage_result shown_simps)
qed

lemma last_only_update:
  assumes "last_only w" "invocations w' = (invocations w)[k := iv]" "Suc k = length (invocations w)"
  shows "last_only w'"
  using assms by (auto simp: last_only_def nth_list_update)

lemma last_only_update_idle:
  assumes "last_only w" "invocations w' = (invocations w)[k := iv]"
    "in_flight iv \<Longrightarrow> in_flight (invocations w ! k)"
  shows "last_only w'"
  unfolding last_only_def
proof (intro allI impI)
  fix j assume "Suc j < length (invocations w')"
  then have j: "Suc j < length (invocations w)" by (simp add: assms(2))
  with assms(1) have idle: "\<not> in_flight (invocations w ! j)" by (simp add: last_only_def)
  show "\<not> in_flight (invocations w' ! j)"
  proof (cases "j = k")
    case True
    with j have "invocations w' ! j = iv" by (simp add: assms(2))
    with idle assms(3) True show ?thesis by auto
  next
    case False
    with idle show ?thesis by (simp add: assms(2))
  qed
qed

lemma chat_send:
  assumes "world_inv w" "last_only w" "transcript_ok t0 w"
  shows "last_only (handleSendMessage w) \<and> transcript_ok t0 (handleSendMessage w)"
proof (cases "blocked w")
  case True
  with assms show ?thesis by (simp add: send_blocked)
next
  case False
  note f = send_fields [OF False]
  from False have "\<not> isProcessing w" by (simp add: blocked_def)
  with assms(1) have idle: "\<And>k. k < length (invocations w) \<Longrightarrow> \<not> in_flight (invocations w ! k)"
    using in_flight_processing by blast
  have "last_only (handleSendMessage w)"
    using idle by (auto simp: last_only_def f nth_append)
  moreover have "transcript_ok t0 (handleSendMessage w)"
    using assms(3)
    by (simp add: transcript_ok_def transcript_def f shown_simps exchange_def reply_def new_trace_def)
  ultimately show ?thesis by simp
qed

lemma chat_fire:
  assumes "world_inv w" "last_only w" "transcript_ok t0 w" and tm: "timers w = (due, cb) # rest"
  shows "last_only (run_callback cb (w\<lparr>timers := rest\<rparr>)) \<and>
         transcript_ok t0 (run_callback cb (w\<lparr>timers := rest\<rparr>))"
proof -
  let ?w0 = "w\<lparr>timers := rest\<rparr>"
  let ?w' = "run_callback cb ?w0"
  let ?k = "owner cb"
  let ?iv = "invocations w ! ?k"
  let ?iv' = "?iv\<lparr>trace := cb_fun cb (trace ?iv)\<rparr>"
  note f = callback_fields [of cb ?w0]
  from assms(1) have it: "inv_timers w" and ik: "inv_tasks w"
    by (simp_all add: world_inv_def)
  from it tm have k: "?k < length (invocations w)"
    by (simp add: inv_timers_def)
  have invs: "invocations ?w' = (invocations w)[?k := ?iv']"
    by (simp add: f)
  have pend_k: "pending_of ?k w = cb # pending_of ?k ?w'"
    by (simp add: pending_of_def tm f)
  from ik k have ok: "task_ok (cb # pending_of ?k ?w') ?k ?iv"
    by (simp add: inv_tasks_def pend_k [symmetric])
  have lo: "last_only ?w'"
    by (rule last_only_update_idle [OF assms(2) invs]) (simp add: in_flight_fire(1) [OF ok])
  show ?thesis
  proof (cases "is_final cb")
    case False
    have "transcript ?w' = transcript w"
      unfolding transcript_def invs by (rule concat_update_same) (rule exchange_fire(1) [OF ok False])
    with assms(3) False lo show ?thesis
      by (simp add: transcript_ok_def tick_fields)
  next
    case True
    then obtain j r where cb: "cb = Final j r"
      by (cases cb) (simp_all add: is_final_def)
    from True have "in_flight ?iv" by (rule in_flight_fire(2) [OF ok])
    from in_flight_is_last [OF assms(2) k this] have last: "Suc ?k = length (invocations w)" .
    have j: "owner (Final j r) = j" by simp
    have "transcript ?w' = transcript w @ [shown (assistantMessage (now w) (captured ?iv) r)]"
      unfolding transcript_def invs
      by (rule concat_update_last [OF last]) (rule exchange_fire(2) [OF ok cb])
    moreover have "messages ?w' = messages w @ [assistantMessage (now w) (captured ?iv) r]"
      unfolding cb j by (simp add: final_fields)
    ultimately show ?thesis using assms(3) lo
      by (simp add: transcript_ok_def)
  qed
qed

lemma chat_resolve:
  assumes "world_inv w" "last_only w" "transcript_ok t0 w" and out: "outstanding k w"
  shows "last_only (on_resolve k r w) \<and> transcript_ok t0 (on_resolve k r w)"
proof -
  let ?iv = "invocations w ! k"
  note f = resolve_fields [of k r w]
  from out have k: "k < length (invocations w)" and c: "call ?iv = Outstanding"
    by (simp_all add: outstanding_def)
  from task_outcome [OF assms(1) k] c have fr: "finalResult (trace ?iv) = None" by simp
  from c have "in_flight ?iv" by (simp add: in_flight_def)
  from in_flight_is_last [OF assms(2) k this] have last: "Suc k = length (invocations w)" .
  have "last_only (on_resolve k r w)"
    by (rule last_only_update [OF assms(2) _ last]) (simp add: f)
  moreover have "transcript (on_resolve k r w) = transcript w"
    unfolding transcript_def f
    by (rule concat_update_same) (simp add: exchange_def reply_def c fr)
  ultimately show ?thesis using assms(3) by (simp add: transcript_ok_def f)
qed

lemma chat_reject:
  assumes "world_inv w" "last_only w" "transcript_ok t0 w" and out: "outstanding k w"
  shows "last_only (on_reject k w) \<and> transcript_ok t0 (on_reject k w)"
proof -
  let ?iv = "invocations w ! k"
  note f = reject_fields [of k w]
  from out have k: "k < length (invocations w)" and c: "call ?iv = Outstanding"
    by (simp_all add: outstanding_def)
  from c have "in_flight ?iv" by (simp add: in_flight_def)
  from in_flight_is_last [OF assms(2) k this] have last: "Suc k = length (invocations w)" .
  have "last_only (on_reject k w)"
    by (rule last_only_update [OF assms(2) _ last]) (simp add: f)
  moreover have "transcript (on_reject k w) = transcript w @ [shown (errorMessage (now w))]"
    unfolding transcript_def f
    by (rule concat_update_last [OF last]) (simp add: exchange_def reply_def c shown_simps)
  ultimately show ?thesis using assms(3) by (simp add: transcript_ok_def f)
qed

lemma chat_step:
  assumes "world_inv w" "last_only w \<and> transcript_ok t0 w" "step e w = Some w'"
  shows "last_only w' \<and> transcript_ok t0 w'"
proof (cases e)
  case (SetInput s)
  with assms show ?thesis by (auto simp: last_only_def transcript_ok_def transcript_def)
next
  case (SelectPersona p)
  with assms show ?thesis by (auto simp: last_only_def transcript_ok_def transcript_def)
next
  case Send
  with assms chat_send [of w t0] show ?thesis by auto
next
  case (Wait d)
  with assms show ?thesis by (auto simp: last_only_def transcript_ok_def transcript_def)
next
  case Fire
  with assms show ?thesis
    by (auto simp: chat_fire split: list.splits if_splits)
next
  case (Resolve k r)
  with assms chat_resolve [of w t0 k r] show ?thesis by (auto split: if_splits)
next
  case (Reject k)
  with assms chat_reject [of w t0 k] show ?thesis by (auto split: if_splits)
qed

lemma chat_run:
  "world_inv w \<Longrightarrow> last_only w \<and> transcript_ok t0 w \<Longrightarrow> run es w = Some w' \<Longrightarrow>
   last_only w' \<and> transcript_ok t0 w'"
proof (induction es arbitrary: w)
  case Nil
  then show ?case by simp
next
  case (Cons e es)
  from Cons.prems(3) obtain w1 where s: "step e w = Some w1" and r: "run es w1 = Some w'"
    by (auto split: option.splits)
  from Cons.IH [OF inv_step [OF Cons.prems(1) s] chat_step [OF Cons.prems(1,2) s] r]
  show ?case .
qed

lemma chat_reachable:
  assumes "run es (mounted t) = Some w"
  shows "last_only w" and "map shown (messages w) = shown (welcome_message t) # transcript w"
proof -
  have "last_only (mounted t) \<and> transcript_ok t (mounted t)"
    by (simp add: last_only_def transcript_ok_def transcript_def mounted_def shown_simps)
  from chat_run [OF inv_mounted this assms]
  show "last_only w" and "map shown (messages w) = shown (welcome_message t) # transcript w"
    by (simp_all add: transcript_ok_def)
qed

lemma flag_iff_in_flight:
  assumes "world_inv w"
  shows "isProcessing w \<longleftrightarrow> (\<exists>k<length (invocations w). in_flight (invocations w ! k))"
proof
  assume "isProcessing w"
  with assms have "filter in_flight (invocations w) \<noteq> []"
    by (auto simp: world_inv_def inv_flight_def in_flight_count_def)
  then obtain iv where "iv \<in> set (invocations w)" "in_flight iv"
    by (auto simp: filter_empty_conv)
  then show "\<exists>k<length (invocations w). in_flight (invocations w ! k)"
    by (auto simp: in_set_conv_nth)
next
  assume "\<exists>k<length (invocations w). in_flight (invocations w ! k)"
  with assms show "isProcessing w" using in_flight_processing by blast
qed

subsection \<open>The trace after a rejection\<close>

lemma timeline_failure_trace:
  assumes q: "trim q \<noteq> []" and t: "T \<le> t"
  shows "processingTrace (timeline p q t0 Fails T b t) =
           (if (T < 2500 \<or> T = 2500 \<and> b) \<and> 2500 \<le> t then Some (stage3 q)
            else if (T < 1300 \<or> T = 1300 \<and> b) \<and> 1300 \<le> t then Some (stage2 q)
            else if (T < 500 \<or> T = 500 \<and> b) \<and> 500 \<le> t then Some (stage1 q)
            else None)"
proof -
  note ev = timeline_def settle_def submit_fields [OF q] eval_simps stage_defs
  consider (u) "t < 500" | (v) "500 \<le> t" "t < 1300" | (w) "1300 \<le> t" "t < 2500" | (x) "2500 \<le> t"
    by linarith
  then show ?thesis
  proof cases
    case u
    with t show ?thesis by (simp add: ev)
  next
    case v
    with t consider "T < 500" | "T = 500" | "500 < T" by linarith
    then show ?thesis
      using v t by cases (cases b; simp add: ev)+
  next
    case w
    with t consider "T < 500" | "T = 500" | "500 < T" "T < 1300" | "T = 1300" | "1300 < T" by linarith
    then show ?thesis
      using w t by cases (cases b; simp add: ev)+
  next
    case x
    consider "T < 500" | "T = 500" | "500 < T" "T < 1300" | "T = 1300" | "1300 < T" "T < 2500"
      | "T = 2500" | "2500 < T" by linarith
    then show ?thesis
      using x t by cases (cases b; simp add: ev)+
  qed
qed

subsection \<open>The loop of the upload list\<close>

lemma loop_from_fields:
  "uploads (loop_from rnd b fs w) =
     uploads w @ (case fs of [] \<Rightarrow> [] | f # rest \<Rightarrow> [new_upload (rnd (created w)) f])"
  "intervals (loop_from rnd b fs w) =
     intervals w @ (case fs of [] \<Rightarrow> [] | f # rest \<Rightarrow> [(created w, rnd (created w))])"
  "drops (loop_from rnd b fs w) = (drops w)[b := next_state rnd (created w) fs]"
  "created (loop_from rnd b fs w) = created w + (case fs of [] \<Rightarrow> 0 | f # rest \<Rightarrow> 1)"
  by (cases fs; simp add: next_state_def)+

subsection \<open>The invariant of the upload list\<close>

lemma handle_of_simps [simp]:
  "handle_of Finished = None" "handle_of (Awaiting f i h fs) = Some h"
  "awaited_id Finished = None" "awaited_id (Awaiting f i h fs) = Some i"
  by (simp_all add: handle_of_def awaited_id_def)

lemma next_state_simps [simp]:
  "handle_of (next_state rnd n fs) = (if fs = [] then None else Some n)"
  "awaited_id (next_state rnd n fs) = (if fs = [] then None else Some (rnd n))"
  by (simp_all add: next_state_def split: list.splits)

lemma upload_inv_empty: "upload_inv rnd no_uploads"
  by (simp add: upload_inv_def uploads_ok_def intervals_ok_def drops_ok_def no_uploads_def)

lemma uploads_ok_loop:
  assumes "inj rnd" "uploads_ok rnd w"
  shows "uploads_ok rnd (loop_from rnd b fs w)"
proof (cases fs)
  case Nil
  with assms show ?thesis by (simp add: uploads_ok_def)
next
  case (Cons f rest)
  have fresh: "rnd (created w) \<notin> upload_id ` set (uploads w)"
  proof
    assume "rnd (created w) \<in> upload_id ` set (uploads w)"
    then obtain u where "u \<in> set (uploads w)" "upload_id u = rnd (created w)" by auto
    with assms(2) obtain n where "n < created w" "rnd n = rnd (created w)"
      by (auto simp: uploads_ok_def)
    with assms(1) show False by (auto dest: injD)
  qed
  from assms(2) fresh show ?thesis
    unfolding uploads_ok_def Cons
    by (auto simp: new_upload_def less_Suc_eq)
qed

lemma fresh_id:
  assumes "inj rnd" "uploads_ok rnd w" "u \<in> set (uploads w)"
  shows "upload_id u \<noteq> rnd (created w)"
proof
  assume "upload_id u = rnd (created w)"
  with assms(2,3) obtain n where "n < created w" "rnd n = rnd (created w)"
    by (auto simp: uploads_ok_def)
  with assms(1) show False by (auto dest: injD)
qed

lemma intervals_ok_loop:
  assumes "inj rnd" "uploads_ok rnd w" "intervals_ok rnd w"
  shows "intervals_ok rnd (loop_from rnd b fs w)"
proof (cases fs)
  case Nil
  with assms show ?thesis by (simp add: intervals_ok_def)
next
  case (Cons f rest)
  have old: "\<And>x u. x \<in> set (intervals w) \<Longrightarrow> snd x \<noteq> rnd (created w)"
  proof -
    fix x assume "x \<in> set (intervals w)"
    with assms(3) have "snd x = rnd (fst x)" "fst x < created w" by (auto simp: intervals_ok_def)
    with assms(1) show "snd x \<noteq> rnd (created w)" by (auto dest: injD)
  qed
  from assms(3) old fresh_id [OF assms(1,2)] show ?thesis
    unfolding intervals_ok_def Cons
    by (auto simp: new_upload_def less_Suc_eq)
qed

lemma drops_ok_loop:
  assumes "inj rnd" "uploads_ok rnd w" "drops_ok rnd w" "b < length (drops w)" "drops w ! b = Finished"
  shows "drops_ok rnd (loop_from rnd b fs w)"
proof (cases fs)
  case Nil
  have "(drops w)[b := Finished] = drops w"
    using assms(4,5) by (metis list_update_id)
  with assms(3) Nil show ?thesis by (simp add: drops_ok_def next_state_def)
next
  case (Cons f rest)
  let ?n = "created w"
  let ?d = "Awaiting f (rnd ?n) ?n rest"
  let ?ds = "(drops w)[b := ?d]"
  from assms(3) have
    a: "\<And>d h. d \<in> set (drops w) \<Longrightarrow> handle_of d = Some h \<Longrightarrow> awaited_id d = Some (rnd h) \<and> h < ?n"
    and u: "\<And>i j h. i < length (drops w) \<Longrightarrow> j < length (drops w) \<Longrightarrow>
              handle_of (drops w ! i) = Some h \<Longrightarrow> handle_of (drops w ! j) = Some h \<Longrightarrow> i = j"
    and s: "\<And>d u. d \<in> set (drops w) \<Longrightarrow> u \<in> set (uploads w) \<Longrightarrow>
              awaited_id d = Some (upload_id u) \<Longrightarrow> upload_status u = Uploading"
    by (auto simp: drops_ok_def)
  have mem: "\<And>d. d \<in> set ?ds \<Longrightarrow> d = ?d \<or> d \<in> set (drops w)"
    by (auto dest: set_update_subset_insert [THEN subsetD])
  have c1: "\<forall>d\<in>set ?ds. \<forall>h. handle_of d = Some h \<longrightarrow> awaited_id d = Some (rnd h) \<and> h < ?n + 1"
    using a by (auto dest!: mem) force
  have c2: "\<forall>i<length ?ds. \<forall>j<length ?ds. \<forall>h.
          handle_of (?ds ! i) = Some h \<and> handle_of (?ds ! j) = Some h \<longrightarrow> i = j"
  proof (intro allI impI)
    fix i j h
    assume i: "i < length ?ds" and j: "j < length ?ds"
      and h: "handle_of (?ds ! i) = Some h \<and> handle_of (?ds ! j) = Some h"
    have old: "\<And>k. k < length (drops w) \<Longrightarrow> handle_of (drops w ! k) \<noteq> Some ?n"
      using a by (metis nth_mem less_irrefl)
    show "i = j"
    proof (cases "i = b")
      case True
      with h i have "h = ?n" by simp
      with h old j True show ?thesis by (cases "j = b") auto
    next
      case False
      show ?thesis
      proof (cases "j = b")
        case True
        with h j have "h = ?n" by simp
        with h old i False show ?thesis by auto
      next
        case jb: False
        with False h i j u show ?thesis by auto
      qed
    qed
  qed
  have c3: "\<forall>d\<in>set ?ds. \<forall>u\<in>set (uploads w @ [new_upload (rnd ?n) f]).
          awaited_id d = Some (upload_id u) \<longrightarrow> upload_status u = Uploading"
  proof (intro ballI impI)
    fix d u
    assume d: "d \<in> set ?ds" and uu: "u \<in> set (uploads w @ [new_upload (rnd ?n) f])"
      and e: "awaited_id d = Some (upload_id u)"
    show "upload_status u = Uploading"
    proof (cases "u = new_upload (rnd ?n) f")
      case True
      then show ?thesis by (simp add: new_upload_def)
    next
      case False
      with uu have old_u: "u \<in> set (uploads w)" by simp
      from mem [OF d] show ?thesis
      proof
        assume "d = ?d"
        with e fresh_id [OF assms(1,2) old_u] show ?thesis by simp
      next
        assume "d \<in> set (drops w)"
        from s [OF this old_u e] show ?thesis .
      qed
    qed
  qed
  from c1 c2 c3 show ?thesis
    unfolding drops_ok_def Cons by (simp add: next_state_def)
qed

lemma upload_inv_loop:
  assumes "inj rnd" "upload_inv rnd w" "b < length (drops w)" "drops w ! b = Finished"
  shows "upload_inv rnd (loop_from rnd b fs w)"
  using assms uploads_ok_loop intervals_ok_loop drops_ok_loop
  by (simp add: upload_inv_def)

lemma id_kept [simp]:
  "upload_id (complete i u) = upload_id u" "upload_id (fail i m u) = upload_id u"
  "upload_id (bump i u) = upload_id u"
  by (simp_all add: complete_def fail_def bump_def)

lemma id_kept_comp [simp]:
  "upload_id \<circ> complete i = upload_id" "upload_id \<circ> fail i m = upload_id"
  "upload_id \<circ> bump i = upload_id"
  by (simp_all add: comp_def)

lemma loop_from_overwrite:
  "loop_from rnd b fs (w\<lparr>drops := (drops w)[b := d]\<rparr>) = loop_from rnd b fs w"
  by (cases fs) simp_all

lemma resolved_eq:
  "drops w ! b = Awaiting f i h fs \<Longrightarrow>
   on_upload_resolved rnd b w =
     loop_from rnd b fs (w\<lparr>intervals := filter (\<lambda>x. fst x \<noteq> h) (intervals w),
                           uploads := map (complete i) (uploads w),
                           drops := (drops w)[b := Finished]\<rparr>)"
  by (cases fs) (simp_all add: on_upload_resolved_def complete_def [abs_def])

lemma rejected_eq:
  "drops w ! b = Awaiting f i h fs \<Longrightarrow>
   on_upload_rejected rnd b e w =
     loop_from rnd b fs (w\<lparr>uploads := map (fail i (failure_message e)) (uploads w),
                           drops := (drops w)[b := Finished]\<rparr>)"
  by (cases fs) (simp_all add: on_upload_rejected_def fail_def [abs_def])

lemma tick_eq: "interval_callback i w = w\<lparr>uploads := map (bump i) (uploads w)\<rparr>"
  by (simp add: interval_callback_def bump_def [abs_def])

lemma drops_finish:
  assumes "drops_ok rnd w" "b < length (drops w)"
  shows "\<forall>d\<in>set ((drops w)[b := Finished]). \<forall>h. handle_of d = Some h \<longrightarrow>
            awaited_id d = Some (rnd h) \<and> h < created w"
    and "\<forall>i<length (drops w). \<forall>j<length (drops w). \<forall>h.
          handle_of ((drops w)[b := Finished] ! i) = Some h \<and>
          handle_of ((drops w)[b := Finished] ! j) = Some h \<longrightarrow> i = j"
proof -
  show "\<forall>d\<in>set ((drops w)[b := Finished]). \<forall>h. handle_of d = Some h \<longrightarrow>
            awaited_id d = Some (rnd h) \<and> h < created w"
    using assms(1) by (auto simp: drops_ok_def dest!: set_update_subset_insert [THEN subsetD])
  show "\<forall>i<length (drops w). \<forall>j<length (drops w). \<forall>h.
          handle_of ((drops w)[b := Finished] ! i) = Some h \<and>
          handle_of ((drops w)[b := Finished] ! j) = Some h \<longrightarrow> i = j"
  proof (intro allI impI)
    fix i j h
    assume i: "i < length (drops w)" and j: "j < length (drops w)"
      and h: "handle_of ((drops w)[b := Finished] ! i) = Some h \<and>
              handle_of ((drops w)[b := Finished] ! j) = Some h"
    from h i j have "i \<noteq> b" "j \<noteq> b" by (auto simp: nth_list_update split: if_splits)
    with h i j assms(1) show "i = j" by (auto simp: drops_ok_def)
  qed
qed

lemma others_differ:
  assumes "inj rnd" "drops_ok rnd w" "b < length (drops w)" "drops w ! b = Awaiting f i h fs"
    and "d \<in> set ((drops w)[b := Finished])"
  shows "awaited_id d \<noteq> Some i"
proof
  assume e: "awaited_id d = Some i"
  then have "d \<noteq> Finished" by auto
  from assms(5) obtain k where k: "k < length (drops w)" "d = (drops w)[b := Finished] ! k"
    by (auto simp: in_set_conv_nth)
  with \<open>d \<noteq> Finished\<close> have "k \<noteq> b" by auto
  with k have c: "k < length (drops w)" "k \<noteq> b" "drops w ! k = d" by simp_all
  from e obtain f' h' fs' where d: "d = Awaiting f' i h' fs'"
    by (cases d) auto
  from assms(2,3,4) have "i = rnd h" by (auto simp: drops_ok_def dest!: nth_mem)
  moreover from assms(2) c d have "i = rnd h'"
    unfolding drops_ok_def by (metis nth_mem handle_of_simps(2,4) option.inject)
  ultimately have "h' = h" using assms(1) by (auto dest: injD)
  with assms(2,3,4) c d show False
    unfolding drops_ok_def by (metis handle_of_simps(2))
qed

lemma drops_ok_mark:
  assumes "inj rnd" "drops_ok rnd w" "b < length (drops w)" "drops w ! b = Awaiting f i h fs"
    and g: "\<And>u. upload_id u \<noteq> i \<Longrightarrow> g u = u" "\<And>u. upload_id (g u) = upload_id u"
    and w': "uploads w' = map g (uploads w)" "drops w' = (drops w)[b := Finished]" "created w' = created w"
  shows "drops_ok rnd w'"
proof -
  have "\<forall>d\<in>set (drops w'). \<forall>u\<in>set (uploads w').
          awaited_id d = Some (upload_id u) \<longrightarrow> upload_status u = Uploading"
  proof (intro ballI impI)
    fix d u'
    assume d: "d \<in> set (drops w')" and u': "u' \<in> set (uploads w')"
      and e: "awaited_id d = Some (upload_id u')"
    from u' w'(1) obtain u where u: "u \<in> set (uploads w)" "u' = g u" by auto
    from d w'(2) have d2: "d \<in> set ((drops w)[b := Finished])" by simp
    from others_differ [OF assms(1-4) d2] e u g(2) have "upload_id u \<noteq> i" by auto
    with g(1) u have same: "u' = u" by simp
    from e have "d \<noteq> Finished" by auto
    with d2 have "d \<in> set (drops w)"
      by (auto dest!: set_update_subset_insert [THEN subsetD])
    with assms(2) u(1) e same show "upload_status u' = Uploading"
      by (auto simp: drops_ok_def)
  qed
  with drops_finish [OF assms(2,3)] w' show ?thesis
    by (simp add: drops_ok_def)
qed

lemma awaited_uploading:
  assumes "drops_ok rnd w" "b < length (drops w)" "drops w ! b = Awaiting f i h fs"
    and "u \<in> set (uploads w)" "upload_id u = i"
  shows "upload_status u = Uploading"
proof -
  from assms(2,3) have "Awaiting f i h fs \<in> set (drops w)" by (metis nth_mem)
  with assms(1,4,5) show ?thesis by (auto simp: drops_ok_def)
qed

lemma inv_complete:
  assumes "inj rnd" "upload_inv rnd w" "b < length (drops w)" "drops w ! b = Awaiting f i h fs"
  shows "upload_inv rnd (w\<lparr>intervals := filter (\<lambda>x. fst x \<noteq> h) (intervals w),
                           uploads := map (complete i) (uploads w),
                           drops := (drops w)[b := Finished]\<rparr>)"
proof -
  from assms(2) have uo: "uploads_ok rnd w" and io: "intervals_ok rnd w" and dk: "drops_ok rnd w"
    by (simp_all add: upload_inv_def)
  from dk assms(3,4) have ih: "i = rnd h" by (auto simp: drops_ok_def dest!: nth_mem)
  have "uploads_ok rnd (w\<lparr>intervals := filter (\<lambda>x. fst x \<noteq> h) (intervals w),
                           uploads := map (complete i) (uploads w),
                           drops := (drops w)[b := Finished]\<rparr>)"
    using uo by (auto simp: uploads_ok_def complete_def)
  moreover have "intervals_ok rnd (w\<lparr>intervals := filter (\<lambda>x. fst x \<noteq> h) (intervals w),
                           uploads := map (complete i) (uploads w),
                           drops := (drops w)[b := Finished]\<rparr>)"
    using io ih assms(1) by (auto simp: intervals_ok_def complete_def dest: injD)
  moreover have "drops_ok rnd (w\<lparr>intervals := filter (\<lambda>x. fst x \<noteq> h) (intervals w),
                           uploads := map (complete i) (uploads w),
                           drops := (drops w)[b := Finished]\<rparr>)"
    by (rule drops_ok_mark [OF assms(1) dk assms(3,4), where g = "complete i"])
      (simp_all add: complete_def)
  ultimately show ?thesis by (simp add: upload_inv_def)
qed

lemma inv_fail:
  assumes "inj rnd" "upload_inv rnd w" "b < length (drops w)" "drops w ! b = Awaiting f i h fs"
  shows "upload_inv rnd (w\<lparr>uploads := map (fail i m) (uploads w),
                           drops := (drops w)[b := Finished]\<rparr>)"
proof -
  from assms(2) have uo: "uploads_ok rnd w" and io: "intervals_ok rnd w" and dk: "drops_ok rnd w"
    by (simp_all add: upload_inv_def)
  have "uploads_ok rnd (w\<lparr>uploads := map (fail i m) (uploads w), drops := (drops w)[b := Finished]\<rparr>)"
    using uo awaited_uploading [OF dk assms(3,4)] by (auto simp: uploads_ok_def fail_def)
  moreover have "intervals_ok rnd (w\<lparr>uploads := map (fail i m) (uploads w), drops := (drops w)[b := Finished]\<rparr>)"
    using io by (auto simp: intervals_ok_def fail_def)
  moreover have "drops_ok rnd (w\<lparr>uploads := map (fail i m) (uploads w), drops := (drops w)[b := Finished]\<rparr>)"
    by (rule drops_ok_mark [OF assms(1) dk assms(3,4), where g = "fail i m"])
      (simp_all add: fail_def)
  ultimately show ?thesis by (simp add: upload_inv_def)
qed

lemma inv_tick:
  assumes "upload_inv rnd w" "(h, i) \<in> set (intervals w)"
  shows "upload_inv rnd (interval_callback i w)"
proof -
  from assms(1) have uo: "uploads_ok rnd w" and io: "intervals_ok rnd w" and dk: "drops_ok rnd w"
    by (simp_all add: upload_inv_def)
  from io assms(2) have live: "\<And>u. u \<in> set (uploads w) \<Longrightarrow> upload_id u = i \<Longrightarrow> upload_status u \<noteq> UploadCompleted"
    by (auto simp: intervals_ok_def)
  have "uploads_ok rnd (interval_callback i w)"
    using uo live unfolding tick_eq by (auto simp: uploads_ok_def bump_def)
  moreover have "intervals_ok rnd (interval_callback i w)"
    using io unfolding tick_eq by (auto simp: intervals_ok_def bump_def)
  moreover have "drops_ok rnd (interval_callback i w)"
    using dk unfolding tick_eq by (auto simp: drops_ok_def bump_def)
  ultimately show ?thesis by (simp add: upload_inv_def)
qed

lemma inv_remove: "upload_inv rnd w \<Longrightarrow> upload_inv rnd (removeUpload i w)"
  by (auto simp: upload_inv_def uploads_ok_def intervals_ok_def drops_ok_def removeUpload_def
      distinct_map_filter)

lemma inv_onDrop:
  assumes "inj rnd" "upload_inv rnd w"
  shows "upload_inv rnd (onDrop rnd fs w)"
proof -
  let ?w1 = "w\<lparr>drops := drops w @ [Finished]\<rparr>"
  have "upload_inv rnd ?w1"
    using assms(2)
    by (auto simp: upload_inv_def uploads_ok_def intervals_ok_def drops_ok_def nth_append
        less_Suc_eq)
  from upload_inv_loop [OF assms(1) this, where b = "length (drops w)" and fs = fs] show ?thesis
    by (simp add: onDrop_def)
qed

lemma upload_inv_step:
  assumes "inj rnd" "upload_inv rnd w" "upload_step cfg rnd e w = Some w'"
  shows "upload_inv rnd w'"
proof (cases e)
  case (Drop files)
  with assms show ?thesis by (auto simp: inv_onDrop)
next
  case (Tick h)
  with assms show ?thesis by (auto simp: inv_tick split: option.splits dest: map_of_SomeD)
next
  case (UploadResolved b)
  with assms(3) have a: "b < length (drops w)" "drops w ! b \<noteq> Finished" and w': "w' = on_upload_resolved rnd b w"
    by (auto simp: awaiting_def split: if_splits)
  then obtain f i h fs where d: "drops w ! b = Awaiting f i h fs"
    by (cases "drops w ! b") auto
  from upload_inv_loop [OF assms(1) inv_complete [OF assms(1,2) a(1) d], where b = b and fs = fs] a(1)
  show ?thesis by (simp add: w' resolved_eq [OF d])
next
  case (UploadRejected b x)
  with assms(3) have a: "b < length (drops w)" "drops w ! b \<noteq> Finished" and w': "w' = on_upload_rejected rnd b x w"
    by (auto simp: awaiting_def split: if_splits)
  then obtain f i h fs where d: "drops w ! b = Awaiting f i h fs"
    by (cases "drops w ! b") auto
  from upload_inv_loop [OF assms(1) inv_fail [OF assms(1,2) a(1) d], where b = b and fs = fs] a(1)
  show ?thesis by (simp add: w' rejected_eq [OF d])
next
  case (Remove i)
  with assms show ?thesis by (auto simp: inv_remove)
qed

lemma upload_inv_run:
  "inj rnd \<Longrightarrow> upload_inv rnd w \<Longrightarrow> upload_run cfg rnd es w = Some w' \<Longrightarrow> upload_inv rnd w'"
  by (induction es arbitrary: w) (auto dest: upload_inv_step split: option.splits)

lemma upload_inv_reachable:
  "inj rnd \<Longrightarrow> upload_run cfg rnd es no_uploads = Some w \<Longrightarrow> upload_inv rnd w"
  using upload_inv_run [OF _ upload_inv_empty] .

subsection \<open>Progress only grows\<close>

lemma same_id_same:
  "distinct (map upload_id us) \<Longrightarrow> u \<in> set us \<Longrightarrow> v \<in> set us \<Longrightarrow> upload_id u = upload_id v \<Longrightarrow> u = v"
  by (auto simp: distinct_map dest: inj_onD)

lemma mono_mark_loop:
  assumes "inj rnd" "uploads_ok rnd w"
    and g: "\<And>v. upload_id (g v) = upload_id v" "progress u \<le> progress (g u)"
    and w1: "uploads w1 = map g (uploads w)" "created w1 = created w"
    and u: "u \<in> set (uploads w)" and u': "u' \<in> set (uploads (loop_from rnd b fs w1))"
    and same: "upload_id u' = upload_id u"
  shows "progress u \<le> progress u'"
proof -
  from u' have "u' \<in> set (map g (uploads w)) \<or> (\<exists>f. u' = new_upload (rnd (created w)) f)"
    by (auto simp: loop_from_fields w1 split: list.splits)
  then show ?thesis
  proof
    assume "u' \<in> set (map g (uploads w))"
    then obtain v where v: "v \<in> set (uploads w)" "u' = g v" by auto
    with same g(1) have "upload_id v = upload_id u" by simp
    with assms(2) u v(1) have "v = u" by (auto simp: uploads_ok_def intro: same_id_same)
    with v g(2) show ?thesis by simp
  next
    assume "\<exists>f. u' = new_upload (rnd (created w)) f"
    then have "upload_id u' = rnd (created w)" by (auto simp: new_upload_def)
    with fresh_id [OF assms(1,2) u] same show ?thesis by simp
  qed
qed

lemma progress_step_mono:
  assumes "inj rnd" "upload_inv rnd w" "upload_step cfg rnd e w = Some w'"
    and u: "u \<in> set (uploads w)" and u': "u' \<in> set (uploads w')"
    and same: "upload_id u' = upload_id u"
  shows "progress u \<le> progress u'"
proof -
  from assms(2) have uo: "uploads_ok rnd w" and io: "intervals_ok rnd w" and dk: "drops_ok rnd w"
    by (simp_all add: upload_inv_def)
  from uo u have bounds: "progress u \<le> 100" "upload_status u \<noteq> UploadCompleted \<Longrightarrow> progress u \<le> 90"
    by (auto simp: uploads_ok_def)
  show ?thesis
  proof (cases e)
    case (Drop files)
    with assms(3) have w': "w' = loop_from rnd (length (drops w)) (filter (dropzone_accepts cfg) files)
                                  (w\<lparr>drops := drops w @ [Finished]\<rparr>)"
      by (simp add: onDrop_def)
    show ?thesis
      by (rule mono_mark_loop [OF assms(1) uo _ _ _ _ u u' [unfolded w'] same, where g = "\<lambda>v. v"])
        simp_all
  next
    case (Tick h)
    with assms(3) obtain i where i: "(h, i) \<in> set (intervals w)" and w': "w' = interval_callback i w"
      by (auto split: option.splits dest: map_of_SomeD)
    from u' obtain v where v: "v \<in> set (uploads w)" "u' = bump i v"
      unfolding w' tick_eq by auto
    with same have "upload_id v = upload_id u" by simp
    with uo u v(1) have vu: "v = u" by (auto simp: uploads_ok_def intro: same_id_same)
    show ?thesis
    proof (cases "upload_id u = i")
      case True
      with io i u have "upload_status u \<noteq> UploadCompleted" by (auto simp: intervals_ok_def)
      with bounds(2) v vu True show ?thesis by (simp add: bump_def)
    next
      case False
      with v vu show ?thesis by (simp add: bump_def)
    qed
  next
    case (UploadResolved b)
    with assms(3) have a: "b < length (drops w)" "drops w ! b \<noteq> Finished" and w': "w' = on_upload_resolved rnd b w"
      by (auto simp: awaiting_def split: if_splits)
    then obtain f i h fs where d: "drops w ! b = Awaiting f i h fs"
      by (cases "drops w ! b") auto
    show ?thesis
      by (rule mono_mark_loop [OF assms(1) uo _ _ _ _ u u' [unfolded w' resolved_eq [OF d]] same,
            where g = "complete i"])
        (use bounds in \<open>simp_all add: complete_def\<close>)
  next
    case (UploadRejected b x)
    with assms(3) have a: "b < length (drops w)" "drops w ! b \<noteq> Finished" and w': "w' = on_upload_rejected rnd b x w"
      by (auto simp: awaiting_def split: if_splits)
    then obtain f i h fs where d: "drops w ! b = Awaiting f i h fs"
      by (cases "drops w ! b") auto
    show ?thesis
      by (rule mono_mark_loop [OF assms(1) uo _ _ _ _ u u' [unfolded w' rejected_eq [OF d]] same,
            where g = "fail i (failure_message x)"])
        (simp_all add: fail_def)
  next
    case (Remove i)
    with assms(3) u' have "u' \<in> set (uploads w)" by (auto simp: removeUpload_def)
    with uo u same have "u' = u" by (auto simp: uploads_ok_def intro: same_id_same)
    then show ?thesis by simp
  qed
qed

subsection \<open>One drop, file by file\<close>

lemma file_of_simps [simp]:
  "file_of (new_upload i f) = f" "file_of (complete i u) = file_of u"
  "file_of (fail i m u) = file_of u" "file_of (bump i u) = file_of u"
  by (simp_all add: file_of_def new_upload_def complete_def fail_def bump_def)

lemma file_of_comp [simp]:
  "file_of \<circ> complete i = file_of" "file_of \<circ> fail i m = file_of" "file_of \<circ> bump i = file_of"
  by (simp_all add: comp_def)

lemma upload_run_append:
  "upload_run cfg rnd (es @ fs) w =
     (case upload_run cfg rnd es w of None \<Rightarrow> None | Some w' \<Rightarrow> upload_run cfg rnd fs w')"
  by (induction es arbitrary: w) (auto split: option.splits)

lemma batch_start: "batch_state rnd acc 0 (onDrop rnd acc no_uploads)"
  by (cases acc) (simp_all add: batch_state_def onDrop_def no_uploads_def next_state_def)

lemma batch_settle:
  assumes "batch_state rnd acc j w" "j < length acc"
  shows "batch_state rnd acc (Suc j)
           (case x of None \<Rightarrow> on_upload_resolved rnd 0 w | Some e \<Rightarrow> on_upload_rejected rnd 0 e w)"
    and "awaiting 0 w"
proof -
  let ?rest = "drop (Suc j) acc"
  from assms have d: "drops w ! 0 = Awaiting (acc ! j) (rnd j) j ?rest"
    by (simp add: batch_state_def next_state_def Cons_nth_drop_Suc [symmetric])
  from assms have c: "created w = Suc j" and m: "map file_of (uploads w) = take (Suc j) acc"
    and ds: "drops w = [next_state rnd j (drop j acc)]"
    by (simp_all add: batch_state_def)
  from ds d show "awaiting 0 w" by (simp add: awaiting_def)
  show "batch_state rnd acc (Suc j)
           (case x of None \<Rightarrow> on_upload_resolved rnd 0 w | Some e \<Rightarrow> on_upload_rejected rnd 0 e w)"
  proof (cases "Suc j < length acc")
    case True
    then have rest: "?rest = acc ! Suc j # drop (Suc (Suc j)) acc"
      by (simp add: Cons_nth_drop_Suc)
    from True have tk: "take (Suc (Suc j)) acc = take (Suc j) acc @ [acc ! Suc j]"
      by (simp add: take_Suc_conv_app_nth [of "Suc j"])
    from True have mn: "min (Suc (Suc j)) (length acc) = Suc (Suc j)" by simp
    show ?thesis
    proof (cases x)
      case None
      show ?thesis
        unfolding None option.case resolved_eq [OF d] batch_state_def rest tk mn
        using c m ds True by (simp add: loop_from_fields next_state_def)
    next
      case (Some e)
      show ?thesis
        unfolding Some option.case rejected_eq [OF d] batch_state_def rest tk mn
        using c m ds True by (simp add: loop_from_fields next_state_def)
    qed
  next
    case False
    with assms(2) have len: "length acc = Suc j" by simp
    then have rest: "?rest = []" by simp
    from len have tk: "take (Suc (Suc j)) acc = take (Suc j) acc" by simp
    from len have mn: "min (Suc (Suc j)) (length acc) = Suc j" by simp
    show ?thesis
    proof (cases x)
      case None
      show ?thesis
        unfolding None option.case resolved_eq [OF d] batch_state_def rest tk mn
        using c m ds False by (simp add: loop_from_fields next_state_def)
    next
      case (Some e)
      show ?thesis
        unfolding Some option.case rejected_eq [OF d] batch_state_def rest tk mn
        using c m ds False by (simp add: loop_from_fields next_state_def)
    qed
  qed
qed

lemma batch_run:
  assumes "length os \<le> length acc"
  shows "\<exists>w. upload_run cfg rnd (settlements 0 os) (onDrop rnd acc no_uploads) = Some w \<and>
             batch_state rnd acc (length os) w"
  using assms
proof (induction os rule: rev_induct)
  case Nil
  then show ?case by (simp add: settlements_def batch_start)
next
  case (snoc x os)
  then obtain w where w: "upload_run cfg rnd (settlements 0 os) (onDrop rnd acc no_uploads) = Some w"
    and b: "batch_state rnd acc (length os) w"
    by auto
  from snoc.prems have lt: "length os < length acc" by simp
  note s = batch_settle(1) [OF b lt, where x = x] batch_settle(2) [OF b lt]
  have "upload_run cfg rnd (settlements 0 (os @ [x])) (onDrop rnd acc no_uploads) =
          Some (case x of None \<Rightarrow> on_upload_resolved rnd 0 w | Some e \<Rightarrow> on_upload_rejected rnd 0 e w)"
    using w s(2) by (cases x) (simp_all add: settlements_def upload_run_append)
  with s(1) show ?case by simp
qed

subsection \<open>Only accepted files are ever uploaded\<close>

lemma files_of_simps [simp]:
  "files_of Finished = []" "files_of (Awaiting f i h fs) = f # fs"
  "files_of (next_state rnd n fs) = fs"
  by (simp_all add: files_of_def next_state_def split: list.splits)

lemma accepted_loop:
  assumes "accepted_only cfg w" "\<forall>f\<in>set fs. dropzone_accepts cfg f"
  shows "accepted_only cfg (loop_from rnd b fs w)"
proof -
  have "\<forall>d\<in>set ((drops w)[b := next_state rnd (created w) fs]). \<forall>f\<in>set (files_of d). dropzone_accepts cfg f"
    using assms by (auto simp: accepted_only_def dest!: set_update_subset_insert [THEN subsetD])
  with assms show ?thesis
    by (auto simp: accepted_only_def loop_from_fields split: list.splits)
qed

lemma accepted_step:
  assumes "accepted_only cfg w" "upload_step cfg rnd e w = Some w'"
  shows "accepted_only cfg w'"
proof (cases e)
  case (Drop files)
  have "accepted_only cfg (w\<lparr>drops := drops w @ [Finished]\<rparr>)"
    using assms(1) by (auto simp: accepted_only_def)
  from accepted_loop [OF this, where fs = "filter (dropzone_accepts cfg) files"] assms(2) Drop
  show ?thesis by (auto simp: onDrop_def)
next
  case (Tick h)
  with assms show ?thesis
    by (auto simp: accepted_only_def tick_eq split: option.splits)
next
  case (UploadResolved b)
  with assms(2) have a: "b < length (drops w)" "drops w ! b \<noteq> Finished" and w': "w' = on_upload_resolved rnd b w"
    by (auto simp: awaiting_def split: if_splits)
  then obtain f i h fs where d: "drops w ! b = Awaiting f i h fs"
    by (cases "drops w ! b") auto
  with a(1) have "Awaiting f i h fs \<in> set (drops w)" by (metis nth_mem)
  with assms(1) have fs: "\<forall>g\<in>set fs. dropzone_accepts cfg g" by (auto simp: accepted_only_def)
  have "accepted_only cfg (w\<lparr>intervals := filter (\<lambda>x. fst x \<noteq> h) (intervals w),
                           uploads := map (complete i) (uploads w),
                           drops := (drops w)[b := Finished]\<rparr>)"
    using assms(1) by (auto simp: accepted_only_def dest!: set_update_subset_insert [THEN subsetD])
  from accepted_loop [OF this fs] show ?thesis by (simp add: w' resolved_eq [OF d])
next
  case (UploadRejected b x)
  with assms(2) have a: "b < length (drops w)" "drops w ! b \<noteq> Finished" and w': "w' = on_upload_rejected rnd b x w"
    by (auto simp: awaiting_def split: if_splits)
  then obtain f i h fs where d: "drops w ! b = Awaiting f i h fs"
    by (cases "drops w ! b") auto
  with a(1) have "Awaiting f i h fs \<in> set (drops w)" by (metis nth_mem)
  with assms(1) have fs: "\<forall>g\<in>set fs. dropzone_accepts cfg g" by (auto simp: accepted_only_def)
  have "accepted_only cfg (w\<lparr>uploads := map (fail i (failure_message x)) (uploads w),
                           drops := (drops w)[b := Finished]\<rparr>)"
    using assms(1) by (auto simp: accepted_only_def dest!: set_update_subset_insert [THEN subsetD])
  from accepted_loop [OF this fs] show ?thesis by (simp add: w' rejected_eq [OF d])
next
  case (Remove i)
  with assms show ?thesis by (auto simp: accepted_only_def removeUpload_def)
qed

lemma accepted_run:
  "accepted_only cfg w \<Longrightarrow> upload_run cfg rnd es w = Some w' \<Longrightarrow> accepted_only cfg w'"
  by (induction es arbitrary: w) (auto dest: accepted_step split: option.splits)

lemma accepted_reachable:
  assumes "upload_run cfg rnd es no_uploads = Some w" "u \<in> set (uploads w)"
  shows "dropzone_accepts cfg (file_of u)"
proof -
  have "accepted_only cfg no_uploads" by (simp add: accepted_only_def no_uploads_def)
  from accepted_run [OF this assms(1)] assms(2) show ?thesis by (simp add: accepted_only_def)
qed

subsection \<open>The sample files\<close>

lemma inj_sample_ids: "inj sample_ids"
proof (rule injI)
  fix m n assume "sample_ids m = sample_ids n"
  then have "length (sample_ids m) = length (sample_ids n)" by simp
  then show "m = n" by (simp add: sample_ids_def)
qed

lemma sample_accepts:
  "dropzone_accepts default_props sales_csv" "dropzone_accepts default_props costs_csv"
  "\<not> dropzone_accepts default_props report_pdf" "\<not> dropzone_accepts default_props notes_txt"
  by (simp_all add: dropzone_accepts_def default_props_def sales_csv_def costs_csv_def
      report_pdf_def notes_txt_def)

subsection \<open>The tasks a run creates\<close>

lemma queued_simps [simp]:
  "queued Finished = []" "queued (Awaiting f i h fs) = fs"
  "queued (next_state rnd n fs) = tl fs"
  by (simp_all add: queued_def next_state_def split: list.splits)

lemma created_loop:
  "length (uploads w1) = length (uploads w) \<Longrightarrow>
   tasks_created w (loop_from rnd b fs w1) = map (new_upload (rnd (created w1))) (take 1 fs)"
  by (cases fs) (simp_all add: tasks_created_def)

lemma step_creates:
  assumes "upload_step cfg rnd e w = Some w'"
  shows "tasks_created w w' = map (new_upload (rnd (created w))) (turn cfg e w)"
proof (cases e)
  case (Drop files)
  with assms have w': "w' = loop_from rnd (length (drops w)) (filter (dropzone_accepts cfg) files)
                                  (w\<lparr>drops := drops w @ [Finished]\<rparr>)"
    by (simp add: onDrop_def)
  show ?thesis unfolding w' by (subst created_loop) (simp_all add: turn_def Drop)
next
  case (Tick h)
  with assms show ?thesis
    by (auto simp: tasks_created_def turn_def tick_eq split: option.splits)
next
  case (UploadResolved b)
  with assms have a: "b < length (drops w)" "drops w ! b \<noteq> Finished" and w': "w' = on_upload_resolved rnd b w"
    by (auto simp: awaiting_def split: if_splits)
  then obtain f i h fs where d: "drops w ! b = Awaiting f i h fs"
    by (cases "drops w ! b") auto
  show ?thesis unfolding w' resolved_eq [OF d]
    by (subst created_loop) (simp_all add: turn_def UploadResolved d)
next
  case (UploadRejected b x)
  with assms have a: "b < length (drops w)" "drops w ! b \<noteq> Finished" and w': "w' = on_upload_rejected rnd b x w"
    by (auto simp: awaiting_def split: if_splits)
  then obtain f i h fs where d: "drops w ! b = Awaiting f i h fs"
    by (cases "drops w ! b") auto
  show ?thesis unfolding w' rejected_eq [OF d]
    by (subst created_loop) (simp_all add: turn_def UploadRejected d)
next
  case (Remove i)
  with assms show ?thesis
    by (auto simp: tasks_created_def turn_def removeUpload_def)
qed

lemma step_queues:
  assumes "upload_step cfg rnd e w = Some w'"
  shows "map queued (drops w') =
           (case e of
              Drop files \<Rightarrow> map queued (drops w) @ [tl (filter (dropzone_accepts cfg) files)]
            | UploadResolved b \<Rightarrow> (map queued (drops w))[b := tl (queued (drops w ! b))]
            | UploadRejected b x \<Rightarrow> (map queued (drops w))[b := tl (queued (drops w ! b))]
            | Tick h \<Rightarrow> map queued (drops w)
            | Remove i \<Rightarrow> map queued (drops w))"
proof (cases e)
  case (Drop files)
  with assms have w': "w' = loop_from rnd (length (drops w)) (filter (dropzone_accepts cfg) files)
                                  (w\<lparr>drops := drops w @ [Finished]\<rparr>)"
    by (simp add: onDrop_def)
  show ?thesis
    unfolding w' by (simp add: Drop loop_from_fields)
next
  case (Tick h)
  with assms show ?thesis by (auto simp: tick_eq split: option.splits)
next
  case (UploadResolved b)
  with assms have a: "b < length (drops w)" "drops w ! b \<noteq> Finished" and w': "w' = on_upload_resolved rnd b w"
    by (auto simp: awaiting_def split: if_splits)
  then obtain f i h fs where d: "drops w ! b = Awaiting f i h fs"
    by (cases "drops w ! b") auto
  show ?thesis
    unfolding w' resolved_eq [OF d] by (simp add: UploadResolved d loop_from_fields map_update)
next
  case (UploadRejected b x)
  with assms have a: "b < length (drops w)" "drops w ! b \<noteq> Finished" and w': "w' = on_upload_rejected rnd b x w"
    by (auto simp: awaiting_def split: if_splits)
  then obtain f i h fs where d: "drops w ! b = Awaiting f i h fs"
    by (cases "drops w ! b") auto
  show ?thesis
    unfolding w' rejected_eq [OF d] by (simp add: UploadRejected d loop_from_fields map_update)
next
  case (Remove i)
  with assms show ?thesis by (auto simp: removeUpload_def)
qed

lemma count_concat_update:
  "b < length xs \<Longrightarrow>
   count_list (concat (map g (xs[b := y]))) f + count_list (g (xs ! b)) f =
   count_list (concat (map g xs)) f + count_list (g y) f"
proof (induction xs arbitrary: b)
  case Nil
  then show ?case by simp
next
  case (Cons x xs)
  show ?case
  proof (cases b)
    case 0
    then show ?thesis by simp
  next
    case (Suc j)
    with Cons.prems have "j < length xs" by simp
    from Cons.IH [OF this] Suc show ?thesis by simp
  qed
qed

lemma count_take_tl: "count_list (take 1 fs) f + count_list (tl fs) f = count_list fs f"
  by (cases fs) simp_all

lemma waiting_loop:
  assumes "b < length (drops w1)"
  shows "count_list (waiting (loop_from rnd b fs w1)) f + count_list (queued (drops w1 ! b)) f =
         count_list (waiting w1) f + count_list (tl fs) f"
  using count_concat_update [OF assms, of queued "next_state rnd (created w1) fs" f]
  by (simp add: waiting_def loop_from_fields)

lemma conserve_step:
  assumes "upload_step cfg rnd e w = Some w'"
  shows "count_list (map file_of (tasks_created w w')) f + count_list (waiting w') f =
         count_list (waiting w) f + count_list (accepted_dropped cfg [e]) f"
proof (cases e)
  case (Drop files)
  let ?acc = "filter (dropzone_accepts cfg) files"
  let ?w1 = "w\<lparr>drops := drops w @ [Finished]\<rparr>"
  from Drop assms have w': "w' = loop_from rnd (length (drops w)) ?acc ?w1"
    by (simp add: onDrop_def)
  have c: "map file_of (tasks_created w w') = take 1 ?acc"
    unfolding w' by (subst created_loop) (simp_all add: comp_def take_map [symmetric])
  have "count_list (waiting w') f + count_list (queued (drops ?w1 ! length (drops w))) f =
        count_list (waiting ?w1) f + count_list (tl ?acc) f"
    unfolding w' by (rule waiting_loop) simp
  then have "count_list (waiting w') f = count_list (waiting w) f + count_list (tl ?acc) f"
    by (simp add: waiting_def)
  with count_take_tl [of ?acc f] show ?thesis
    by (simp add: c accepted_dropped_def Drop)
next
  case (Tick h)
  with assms show ?thesis
    by (auto simp: tasks_created_def waiting_def accepted_dropped_def tick_eq split: option.splits)
next
  case (UploadResolved b)
  with assms have a: "b < length (drops w)" "drops w ! b \<noteq> Finished" and w': "w' = on_upload_resolved rnd b w"
    by (auto simp: awaiting_def split: if_splits)
  then obtain g i h fs where d: "drops w ! b = Awaiting g i h fs"
    by (cases "drops w ! b") auto
  let ?w1 = "w\<lparr>intervals := filter (\<lambda>x. fst x \<noteq> h) (intervals w),
               uploads := map (complete i) (uploads w),
               drops := (drops w)[b := Finished]\<rparr>"
  have c: "map file_of (tasks_created w w') = take 1 fs"
    unfolding w' resolved_eq [OF d] by (subst created_loop) (simp_all add: comp_def take_map [symmetric])
  have "count_list (waiting w') f + count_list (queued (drops ?w1 ! b)) f =
        count_list (waiting ?w1) f + count_list (tl fs) f"
    unfolding w' resolved_eq [OF d] by (rule waiting_loop) (simp add: a)
  moreover have "count_list (waiting ?w1) f + count_list (queued (drops w ! b)) f =
                 count_list (waiting w) f + count_list (queued Finished) f"
    using count_concat_update [OF a(1), of queued Finished f] by (simp add: waiting_def)
  ultimately have "count_list (waiting w') f + count_list fs f =
                   count_list (waiting w) f + count_list (tl fs) f"
    using a by (simp add: d)
  with count_take_tl [of fs f] show ?thesis
    by (simp add: c accepted_dropped_def UploadResolved)
next
  case (UploadRejected b x)
  with assms have a: "b < length (drops w)" "drops w ! b \<noteq> Finished" and w': "w' = on_upload_rejected rnd b x w"
    by (auto simp: awaiting_def split: if_splits)
  then obtain g i h fs where d: "drops w ! b = Awaiting g i h fs"
    by (cases "drops w ! b") auto
  let ?w1 = "w\<lparr>uploads := map (fail i (failure_message x)) (uploads w),
               drops := (drops w)[b := Finished]\<rparr>"
  have c: "map file_of (tasks_created w w') = take 1 fs"
    unfolding w' rejected_eq [OF d] by (subst created_loop) (simp_all add: comp_def take_map [symmetric])
  have "count_list (waiting w') f + count_list (queued (drops ?w1 ! b)) f =
        count_list (waiting ?w1) f + count_list (tl fs) f"
    unfolding w' rejected_eq [OF d] by (rule waiting_loop) (simp add: a)
  moreover have "count_list (waiting ?w1) f + count_list (queued (drops w ! b)) f =
                 count_list (waiting w) f + count_list (queued Finished) f"
    using count_concat_update [OF a(1), of queued Finished f] by (simp add: waiting_def)
  ultimately have "count_list (waiting w') f + count_list fs f =
                   count_list (waiting w) f + count_list (tl fs) f"
    using a by (simp add: d)
  with count_take_tl [of fs f] show ?thesis
    by (simp add: c accepted_dropped_def UploadRejected)
next
  case (Remove i)
  with assms show ?thesis
    by (auto simp: tasks_created_def waiting_def accepted_dropped_def removeUpload_def)
qed

lemma accepted_dropped_Cons:
  "count_list (accepted_dropped cfg (e # es)) f =
   count_list (accepted_dropped cfg [e]) f + count_list (accepted_dropped cfg es) f"
  by (simp add: accepted_dropped_def)

lemma conserve_run:
  "upload_run cfg rnd es w = Some w' \<Longrightarrow>
   count_list (map file_of (task_log cfg rnd es w)) f + count_list (waiting w') f =
   count_list (waiting w) f + count_list (accepted_dropped cfg es) f"
proof (induction es arbitrary: w)
  case Nil
  then show ?case by (simp add: accepted_dropped_def)
next
  case (Cons e es)
  from Cons.prems obtain w1 where s: "upload_step cfg rnd e w = Some w1"
    and r: "upload_run cfg rnd es w1 = Some w'"
    by (auto split: option.splits)
  from Cons.IH [OF r] conserve_step [OF s, of f] show ?case
    by (simp add: s accepted_dropped_Cons [of cfg e es])
qed

lemma turn_accepted:
  assumes "accepted_only cfg w" "upload_step cfg rnd e w = Some w'" "g \<in> set (turn cfg e w)"
  shows "dropzone_accepts cfg g"
proof -
  have q: "\<And>b. b < length (drops w) \<Longrightarrow> \<forall>x\<in>set (queued (drops w ! b)). dropzone_accepts cfg x"
  proof
    fix b x assume b: "b < length (drops w)" and x: "x \<in> set (queued (drops w ! b))"
    from b have "drops w ! b \<in> set (drops w)" by simp
    moreover from x have "x \<in> set (files_of (drops w ! b))"
      by (cases "drops w ! b") simp_all
    ultimately show "dropzone_accepts cfg x" using assms(1) by (auto simp: accepted_only_def)
  qed
  show ?thesis
  proof (cases e)
    case (Drop files)
    with assms(3) show ?thesis by (auto simp: turn_def dest: in_set_takeD)
  next
    case (UploadResolved b)
    with assms(2) have "b < length (drops w)" by (auto simp: awaiting_def split: if_splits)
    from q [OF this] assms(3) UploadResolved show ?thesis by (auto simp: turn_def dest: in_set_takeD)
  next
    case (UploadRejected b x)
    with assms(2) have "b < length (drops w)" by (auto simp: awaiting_def split: if_splits)
    from q [OF this] assms(3) UploadRejected show ?thesis by (auto simp: turn_def dest: in_set_takeD)
  qed (use assms(3) in \<open>simp_all add: turn_def\<close>)
qed

lemma log_tasks:
  "accepted_only cfg w \<Longrightarrow> upload_run cfg rnd es w = Some w' \<Longrightarrow> u \<in> set (task_log cfg rnd es w) \<Longrightarrow>
   dropzone_accepts cfg (file_of u) \<and> upload_status u = Uploading \<and> progress u = 0 \<and>
   upload_error u = None"
proof (induction es arbitrary: w)
  case Nil
  then show ?case by simp
next
  case (Cons e es)
  from Cons.prems(2) obtain w1 where s: "upload_step cfg rnd e w = Some w1"
    and r: "upload_run cfg rnd es w1 = Some w'"
    by (auto split: option.splits)
  from Cons.prems(3) s have "u \<in> set (tasks_created w w1) \<or> u \<in> set (task_log cfg rnd es w1)"
    by auto
  then show ?case
  proof
    assume "u \<in> set (tasks_created w w1)"
    then obtain g where g: "g \<in> set (turn cfg e w)" "u = new_upload (rnd (created w)) g"
      unfolding step_creates [OF s] by auto
    from g(2) have "file_of u = g" by simp
    with turn_accepted [OF Cons.prems(1) s g(1)] g(2) show ?thesis
      by (simp add: new_upload_def)
  next
    assume "u \<in> set (task_log cfg rnd es w1)"
    from Cons.IH [OF accepted_step [OF Cons.prems(1) s] r this] show ?thesis .
  qed
qed

lemma loop_appends:
  "length (uploads w1) = length (uploads w) \<Longrightarrow>
   uploads (loop_from rnd b fs w1) = uploads w1 @ tasks_created w (loop_from rnd b fs w1)"
  by (cases fs) (simp_all add: tasks_created_def)

lemma rows_step:
  assumes "upload_step cfg rnd e w = Some w'" "u \<in> set (uploads w')"
  shows "(\<exists>v\<in>set (uploads w). upload_id v = upload_id u \<and> file_of v = file_of u) \<or>
         u \<in> set (tasks_created w w')"
proof (cases e)
  case (Drop files)
  with assms(1) have w': "w' = loop_from rnd (length (drops w)) (filter (dropzone_accepts cfg) files)
                                  (w\<lparr>drops := drops w @ [Finished]\<rparr>)"
    by (simp add: onDrop_def)
  have "uploads w' = uploads w @ tasks_created w w'"
    unfolding w' by (subst loop_appends [where w = w]) simp_all
  with assms(2) show ?thesis by auto
next
  case (Tick h)
  with assms obtain i v where "v \<in> set (uploads w)" "u = bump i v"
    by (auto simp: tick_eq split: option.splits)
  then have "v \<in> set (uploads w) \<and> upload_id v = upload_id u \<and> file_of v = file_of u" by simp
  then show ?thesis by blast
next
  case (UploadResolved b)
  with assms(1) have a: "b < length (drops w)" "drops w ! b \<noteq> Finished" and w': "w' = on_upload_resolved rnd b w"
    by (auto simp: awaiting_def split: if_splits)
  then obtain g i h fs where d: "drops w ! b = Awaiting g i h fs"
    by (cases "drops w ! b") auto
  have "uploads w' = map (complete i) (uploads w) @ tasks_created w w'"
    unfolding w' resolved_eq [OF d] by (subst loop_appends [where w = w]) simp_all
  with assms(2) consider v where "v \<in> set (uploads w)" "u = complete i v" | "u \<in> set (tasks_created w w')"
    by auto
  then show ?thesis
  proof cases
    case 1
    then have "v \<in> set (uploads w) \<and> upload_id v = upload_id u \<and> file_of v = file_of u" by simp
    then show ?thesis by blast
  qed simp
next
  case (UploadRejected b x)
  with assms(1) have a: "b < length (drops w)" "drops w ! b \<noteq> Finished" and w': "w' = on_upload_rejected rnd b x w"
    by (auto simp: awaiting_def split: if_splits)
  then obtain g i h fs where d: "drops w ! b = Awaiting g i h fs"
    by (cases "drops w ! b") auto
  have "uploads w' = map (fail i (failure_message x)) (uploads w) @ tasks_created w w'"
    unfolding w' rejected_eq [OF d] by (subst loop_appends [where w = w]) simp_all
  with assms(2) consider v where "v \<in> set (uploads w)" "u = fail i (failure_message x) v"
    | "u \<in> set (tasks_created w w')"
    by auto
  then show ?thesis
  proof cases
    case 1
    then have "v \<in> set (uploads w) \<and> upload_id v = upload_id u \<and> file_of v = file_of u" by simp
    then show ?thesis by blast
  qed simp
next
  case (Remove i)
  with assms show ?thesis by (auto simp: removeUpload_def)
qed

lemma rows_run:
  "upload_run cfg rnd es w = Some w' \<Longrightarrow> u \<in> set (uploads w') \<Longrightarrow>
   (\<exists>v\<in>set (uploads w). upload_id v = upload_id u \<and> file_of v = file_of u) \<or>
   (\<exists>v\<in>set (task_log cfg rnd es w). upload_id v = upload_id u \<and> file_of v = file_of u)"
proof (induction es arbitrary: w)
  case Nil
  then show ?case by auto
next
  case (Cons e es)
  from Cons.prems(1) obtain w1 where s: "upload_step cfg rnd e w = Some w1"
    and r: "upload_run cfg rnd es w1 = Some w'"
    by (auto split: option.splits)
  from Cons.IH [OF r Cons.prems(2)] show ?case
  proof
    assume "\<exists>v\<in>set (uploads w1). upload_id v = upload_id u \<and> file_of v = file_of u"
    then obtain v where v: "v \<in> set (uploads w1)" "upload_id v = upload_id u" "file_of v = file_of u"
      by blast
    from rows_step [OF s v(1)] v(2,3) show ?thesis
      by (auto simp: s)
  next
    assume "\<exists>v\<in>set (task_log cfg rnd es w1). upload_id v = upload_id u \<and> file_of v = file_of u"
    then show ?thesis by (auto simp: s)
  qed
qed

lemma rows_logged:
  assumes "upload_run cfg rnd es no_uploads = Some w" "u \<in> set (uploads w)"
  shows "\<exists>v\<in>set (task_log cfg rnd es no_uploads). upload_id v = upload_id u \<and> file_of v = file_of u"
  using rows_run [OF assms] by (simp add: no_uploads_def)

lemma conserve_reachable:
  assumes "upload_run cfg rnd es no_uploads = Some w"
  shows "count_list (map file_of (task_log cfg rnd es no_uploads)) f + count_list (waiting w) f =
         count_list (accepted_dropped cfg es) f"
  using conserve_run [OF assms, of f] by (simp add: waiting_def no_uploads_def)

lemma log_reachable:
  assumes "upload_run cfg rnd es no_uploads = Some w" "u \<in> set (task_log cfg rnd es no_uploads)"
  shows "dropzone_accepts cfg (file_of u) \<and> upload_status u = Uploading \<and> progress u = 0 \<and>
         upload_error u = None"
proof -
  have "accepted_only cfg no_uploads" by (simp add: accepted_only_def no_uploads_def)
  from log_tasks [OF this assms] show ?thesis .
qed

section \<open>The claims\<close>

subsection \<open>The query pipeline\<close>

text \<open>
  C1: what the user is shown once the call of a query has settled. On a freshly mounted
  page, for every settle time \<open>T\<close>, either order of a tick and a settlement that fall on the
  same moment, and every moment \<open>t\<close>: a call that resolves with \<open>r\<close> leaves the page
  processing, with no reply, before \<open>T + 3500\<close>, and from then on idle with exactly one
  reply, whose text is the response text of \<open>r\<close> and whose metadata are the persona and the
  suggestions of \<open>r\<close>, and with the completed trace that holds \<open>r\<close>. A call that rejects
  leaves the page processing before \<open>T\<close> and from then on idle with exactly one reply, the
  fixed fallback text. The trace after a rejection is none only until the next tick: every
  tick that is due after the rejection publishes the trace again, so from then on the page
  shows the partial pipeline of the latest such tick, and the trace stays none only when the
  call rejects after the last tick, due at 2500 ms. Both timelines are runs of the event
  loop. In every state the event loop can reach, with any number of queries and with timers
  firing late, the messages shown are the welcome message and then, for every invocation in
  order, its query and at most one reply: none while the invocation is in flight, the
  response text and metadata once the final tick of a resolved call has fired, the fallback
  text after a rejection. The flag is up exactly while some invocation is in flight; an
  invocation whose call resolved with \<open>r\<close> carries \<open>r\<close> as its result or still has its final
  tick pending, and one whose call is outstanding or rejected carries no result. Resolving
  and rejecting are the two outcomes of the promise; the \<^verbatim>\<open>success\<close> field of a response
  is not inspected by the code.
\<close>

theorem query_outcome_after_settlement:
  "(trim q \<noteq> [] \<longrightarrow>
      reachable (timeline p q t0 (Succeeds r) T call_first t) \<and>
      reachable (timeline p q t0 Fails T call_first t) \<and>
      (let w = timeline p q t0 (Succeeds r) T call_first t in
         if t < T + 3500
         then isProcessing w \<and>
              messages w =
                [welcome_message t0,
                 \<lparr>msg_id = t0, msg_type = User, content = q, timestamp = t0, metadata = None\<rparr>]
         else \<not> isProcessing w \<and>
              messages w =
                [welcome_message t0,
                 \<lparr>msg_id = t0, msg_type = User, content = q, timestamp = t0, metadata = None\<rparr>,
                 \<lparr>msg_id = t0 + T + 3500 + 1, msg_type = Assistant, content = response r,
                  timestamp = t0 + T + 3500,
                  metadata = Some \<lparr>persona = persona_name p, suggestedQueries = suggested_queries r,
                                   processingTime = processing_time r\<rparr>\<rparr>] \<and>
              processingTrace w = Some (stage4 q r)) \<and>
      (let w = timeline p q t0 Fails T call_first t in
         if t < T
         then isProcessing w \<and>
              messages w =
                [welcome_message t0,
                 \<lparr>msg_id = t0, msg_type = User, content = q, timestamp = t0, metadata = None\<rparr>]
         else \<not> isProcessing w \<and>
              messages w =
                [welcome_message t0,
                 \<lparr>msg_id = t0, msg_type = User, content = q, timestamp = t0, metadata = None\<rparr>,
                 \<lparr>msg_id = t0 + T + 1, msg_type = Assistant,
                  content = ''Sorry, I encountered an error processing your query. Please try again.'',
                  timestamp = t0 + T, metadata = None\<rparr>] \<and>
              processingTrace w =
                (if (T < 2500 \<or> T = 2500 \<and> call_first) \<and> 2500 \<le> t then Some (stage3 q)
                 else if (T < 1300 \<or> T = 1300 \<and> call_first) \<and> 1300 \<le> t then Some (stage2 q)
                 else if (T < 500 \<or> T = 500 \<and> call_first) \<and> 500 \<le> t then Some (stage1 q)
                 else None))) \<and>
   map status (steps (stage1 q)) = [Completed, Processing, Pending, Pending] \<and>
   map status (steps (stage2 q)) = [Completed, Completed, Processing, Pending] \<and>
   map status (steps (stage3 q)) = [Completed, Completed, Completed, Processing] \<and>
   map status (steps (stage4 q r)) = [Completed, Completed, Completed, Completed] \<and>
   finalResult (stage1 q) = None \<and> finalResult (stage2 q) = None \<and> finalResult (stage3 q) = None \<and>
   finalResult (stage4 q r) = Some r \<and>
   (run es (mounted t1) = Some w' \<longrightarrow>
      map shown (messages w') = shown (welcome_message t1) # transcript w' \<and>
      (isProcessing w' \<longleftrightarrow> (\<exists>k<length (invocations w'). in_flight (invocations w' ! k))) \<and>
      (\<forall>k<length (invocations w').
         length (reply (invocations w' ! k)) \<le> 1 \<and>
         (case call (invocations w' ! k) of
            Outstanding \<Rightarrow> isProcessing w' \<and> finalResult (trace (invocations w' ! k)) = None
          | Resolved r' \<Rightarrow> finalResult (trace (invocations w' ! k)) = Some r' \<or>
                           finalResult (trace (invocations w' ! k)) = None \<and> isProcessing w'
          | Rejected \<Rightarrow> finalResult (trace (invocations w' ! k)) = None)))"
proof -
  have a1: "reachable (timeline p q t0 (Succeeds r) T call_first t)"
    and a2: "reachable (timeline p q t0 Fails T call_first t)" if q: "trim q \<noteq> []"
    by (rule reachable_timeline [OF q])+
  have b: "let w = timeline p q t0 (Succeeds r) T call_first t in
         if t < T + 3500
         then isProcessing w \<and>
              messages w =
                [welcome_message t0,
                 \<lparr>msg_id = t0, msg_type = User, content = q, timestamp = t0, metadata = None\<rparr>]
         else \<not> isProcessing w \<and>
              messages w =
                [welcome_message t0,
                 \<lparr>msg_id = t0, msg_type = User, content = q, timestamp = t0, metadata = None\<rparr>,
                 \<lparr>msg_id = t0 + T + 3500 + 1, msg_type = Assistant, content = response r,
                  timestamp = t0 + T + 3500,
                  metadata = Some \<lparr>persona = persona_name p, suggestedQueries = suggested_queries r,
                                   processingTime = processing_time r\<rparr>\<rparr>] \<and>
              processingTrace w = Some (stage4 q r)"
    if q: "trim q \<noteq> []"
    using timeline_success_pending [OF q, where t = t and T = T and p = p and ?t0.0 = t0 and r = r and b = call_first]
      timeline_success_done [OF q, where t = t and T = T and p = p and ?t0.0 = t0 and r = r and b = call_first]
    by (simp add: Let_def userMessage_def assistantMessage_def)
  have c: "let w = timeline p q t0 Fails T call_first t in
         if t < T
         then isProcessing w \<and>
              messages w =
                [welcome_message t0,
                 \<lparr>msg_id = t0, msg_type = User, content = q, timestamp = t0, metadata = None\<rparr>]
         else \<not> isProcessing w \<and>
              messages w =
                [welcome_message t0,
                 \<lparr>msg_id = t0, msg_type = User, content = q, timestamp = t0, metadata = None\<rparr>,
                 \<lparr>msg_id = t0 + T + 1, msg_type = Assistant,
                  content = ''Sorry, I encountered an error processing your query. Please try again.'',
                  timestamp = t0 + T, metadata = None\<rparr>] \<and>
              processingTrace w =
                (if (T < 2500 \<or> T = 2500 \<and> call_first) \<and> 2500 \<le> t then Some (stage3 q)
                 else if (T < 1300 \<or> T = 1300 \<and> call_first) \<and> 1300 \<le> t then Some (stage2 q)
                 else if (T < 500 \<or> T = 500 \<and> call_first) \<and> 500 \<le> t then Some (stage1 q)
                 else None)"
    if q: "trim q \<noteq> []"
  proof (cases "t < T")
    case True
    with timeline_failure(1) [OF q, where t = t and T = T and p = p and ?t0.0 = t0 and b = call_first]
    show ?thesis by (simp add: Let_def userMessage_def)
  next
    case False
    then have le: "T \<le> t" by simp
    from timeline_failure(2) [OF q le, where p = p and ?t0.0 = t0 and b = call_first]
      timeline_failure_trace [OF q le, where p = p and ?t0.0 = t0 and b = call_first] False
    show ?thesis
      by (simp only: Let_def if_False userMessage_def errorMessage_def fallback_text_def) simp
  qed
  have d1: "map shown (messages w') = shown (welcome_message t1) # transcript w'"
    and d2: "isProcessing w' \<longleftrightarrow> (\<exists>k<length (invocations w'). in_flight (invocations w' ! k))"
    and d3: "\<forall>k<length (invocations w').
         length (reply (invocations w' ! k)) \<le> 1 \<and>
         (case call (invocations w' ! k) of
            Outstanding \<Rightarrow> isProcessing w' \<and> finalResult (trace (invocations w' ! k)) = None
          | Resolved r' \<Rightarrow> finalResult (trace (invocations w' ! k)) = Some r' \<or>
                           finalResult (trace (invocations w' ! k)) = None \<and> isProcessing w'
          | Rejected \<Rightarrow> finalResult (trace (invocations w' ! k)) = None)"
    if r: "run es (mounted t1) = Some w'"
  proof -
    note i = inv_reachable [OF r]
    show "map shown (messages w') = shown (welcome_message t1) # transcript w'"
      by (rule chat_reachable(2) [OF r])
    show "isProcessing w' \<longleftrightarrow> (\<exists>k<length (invocations w'). in_flight (invocations w' ! k))"
      by (rule flag_iff_in_flight [OF i])
    have one: "\<And>iv. length (reply iv) \<le> 1"
      by (simp add: reply_def split: call_state.splits)
    show "\<forall>k<length (invocations w').
         length (reply (invocations w' ! k)) \<le> 1 \<and>
         (case call (invocations w' ! k) of
            Outstanding \<Rightarrow> isProcessing w' \<and> finalResult (trace (invocations w' ! k)) = None
          | Resolved r' \<Rightarrow> finalResult (trace (invocations w' ! k)) = Some r' \<or>
                           finalResult (trace (invocations w' ! k)) = None \<and> isProcessing w'
          | Rejected \<Rightarrow> finalResult (trace (invocations w' ! k)) = None)"
      using task_outcome [OF i] one by blast
  qed
  show ?thesis
    by (intro conjI impI) (erule a1 a2 b c d1 d2 d3 | rule stage_steps stage_result)+
qed

theorem query_outcome_after_settlement_witness:
  "trim revenue_query \<noteq> [] \<and>
   \<not> isProcessing (timeline analyst revenue_query 0 Fails 1000 False 1000) \<and>
   map content (messages (timeline analyst revenue_query 0 Fails 1000 False 1000)) =
     [content (welcome_message 0), revenue_query,
      ''Sorry, I encountered an error processing your query. Please try again.''] \<and>
   processingTrace (timeline analyst revenue_query 0 Fails 1000 False 1000) = None \<and>
   processingTrace (timeline analyst revenue_query 0 Fails 1000 False 1300) = Some (stage2 revenue_query) \<and>
   processingTrace (timeline analyst revenue_query 0 Fails 1000 False 2500) = Some (stage3 revenue_query) \<and>
   processingTrace (timeline analyst revenue_query 0 Fails 1000 False 60000) = Some (stage3 revenue_query) \<and>
   map status (steps (stage3 revenue_query)) = [Completed, Completed, Completed, Processing] \<and>
   processingTrace (timeline analyst revenue_query 0 Fails 3000 False 3000) = None \<and>
   processingTrace (timeline analyst revenue_query 0 Fails 3000 False 60000) = None \<and>
   \<not> isProcessing (timeline analyst revenue_query 0 (Succeeds revenue_answer) 3000 False 6500) \<and>
   map content (messages (timeline analyst revenue_query 0 (Succeeds revenue_answer) 3000 False 6500)) =
     [content (welcome_message 0), revenue_query, ''Revenue grew 12%.''] \<and>
   run [SelectPersona analyst, SetInput revenue_query, Send, Wait 1000, Reject 0] (mounted 0) =
     Some (on_reject 0 ((submit analyst revenue_query 0)\<lparr>now := 1000\<rparr>)) \<and>
   map shown (messages (on_reject 0 ((submit analyst revenue_query 0)\<lparr>now := 1000\<rparr>))) =
     [shown (welcome_message 0), (User, revenue_query, None),
      (Assistant, ''Sorry, I encountered an error processing your query. Please try again.'', None)] \<and>
   \<not> isProcessing (on_reject 0 ((submit analyst revenue_query 0)\<lparr>now := 1000\<rparr>))"
proof -
  let ?w = "on_reject 0 ((submit analyst revenue_query 0)\<lparr>now := 1000\<rparr>)"
  note t = query_outcome_after_settlement [where q = revenue_query and p = analyst and ?t0.0 = 0
      and r = revenue_answer and call_first = False
      and es = "[SelectPersona analyst, SetInput revenue_query, Send, Wait 1000, Reject 0]" and ?t1.0 = 0
      and w' = ?w]
  note sf = submit_fields [OF revenue_query_not_blank]
  have r: "run [SelectPersona analyst, SetInput revenue_query, Send, Wait 1000, Reject 0] (mounted 0) = Some ?w"
    by (subst run_submit) (simp add: sf outstanding_def)
  have tr: "transcript ?w =
     [(User, revenue_query, None),
      (Assistant, ''Sorry, I encountered an error processing your query. Please try again.'', None)]"
    by (simp add: transcript_def reject_fields sf exchange_def reply_def stage_query)
  have p: "\<not> isProcessing ?w" by (simp add: reject_fields)
  from t [where t = 1000 and T = 1000] t [where t = 1300 and T = 1000] t [where t = 2500 and T = 1000]
    t [where t = 60000 and T = 1000] t [where t = 3000 and T = 3000] t [where t = 60000 and T = 3000]
    t [where t = 6500 and T = 3000]
    revenue_query_not_blank r tr p
  show ?thesis by (simp add: Let_def revenue_answer_def)
qed

text \<open>
  C2: the code on the scenario of the specification, in which the call resolves 3000 ms
  after the submission. The first three transitions happen at 500, 1300 and 2500 ms. At
  3500 ms the page is still processing, step 4 is still in progress and there is no reply:
  the only pending timer is the final one, due at 6500 ms, which is 3500 ms after the
  resolution. Step 4 completes and the reply appears at 6500 ms.
\<close>

theorem final_tick_counts_from_resolution:
  "processingTrace (timeline analyst revenue_query 0 (Succeeds revenue_answer) 3000 False 499) =
     Some (stage0 revenue_query) \<and>
   processingTrace (timeline analyst revenue_query 0 (Succeeds revenue_answer) 3000 False 500) =
     Some (stage1 revenue_query) \<and>
   processingTrace (timeline analyst revenue_query 0 (Succeeds revenue_answer) 3000 False 1300) =
     Some (stage2 revenue_query) \<and>
   processingTrace (timeline analyst revenue_query 0 (Succeeds revenue_answer) 3000 False 2500) =
     Some (stage3 revenue_query) \<and>
   isProcessing (timeline analyst revenue_query 0 (Succeeds revenue_answer) 3000 False 3500) \<and>
   processingTrace (timeline analyst revenue_query 0 (Succeeds revenue_answer) 3000 False 3500) =
     Some (stage3 revenue_query) \<and>
   map status (steps (stage3 revenue_query)) = [Completed, Completed, Completed, Processing] \<and>
   messages (timeline analyst revenue_query 0 (Succeeds revenue_answer) 3000 False 3500) =
     [welcome_message 0, userMessage 0 revenue_query] \<and>
   timers (timeline analyst revenue_query 0 (Succeeds revenue_answer) 3000 False 3500) =
     [(6500, Final 0 revenue_answer)] \<and>
   isProcessing (timeline analyst revenue_query 0 (Succeeds revenue_answer) 3000 False 6499) \<and>
   processingTrace (timeline analyst revenue_query 0 (Succeeds revenue_answer) 3000 False 6500) =
     Some (stage4 revenue_query revenue_answer) \<and>
   messages (timeline analyst revenue_query 0 (Succeeds revenue_answer) 3000 False 6500) =
     [welcome_message 0, userMessage 0 revenue_query, assistantMessage 6500 analyst revenue_answer]"
  by (simp add: concrete_simps stage_steps [unfolded stage_defs])

text \<open>
  C5: the code on the scenario of the specification, in which the call rejects 1000 ms
  after the submission. At 1000 ms the trace is none, the flag is down and the fallback is
  the reply. But the timers registered before the await are still pending: at 1300 ms the
  second of them publishes the trace again, with step 3 in progress, and at 2500 ms the
  third leaves it with step 4 in progress for good.
\<close>

theorem rejected_trace_is_republished:
  "processingTrace (timeline analyst revenue_query 0 Fails 1000 False 1000) = None \<and>
   processingTrace (timeline analyst revenue_query 0 Fails 1000 False 1300) =
     Some (stage2 revenue_query) \<and>
   \<not> isProcessing (timeline analyst revenue_query 0 Fails 1000 False 1300) \<and>
   messages (timeline analyst revenue_query 0 Fails 1000 False 1300) =
     [welcome_message 0, userMessage 0 revenue_query, errorMessage 1000] \<and>
   map status (steps (stage2 revenue_query)) = [Completed, Completed, Processing, Pending] \<and>
   processingTrace (timeline analyst revenue_query 0 Fails 1000 False 2500) =
     Some (stage3 revenue_query) \<and>
   timers (timeline analyst revenue_query 0 Fails 1000 False 2500) = [] \<and>
   map status (steps (stage3 revenue_query)) = [Completed, Completed, Completed, Processing]"
  by (simp add: concrete_simps stage_steps [unfolded stage_defs])

text \<open>
  C6: In every state the event loop can reach, the statuses of the four steps of every
  trace, the published one and the one of every invocation, form one of the five prefixes
  of the pipeline; hence step \<open>i + 1\<close> is processing or completed only if step \<open>i\<close> is
  completed.
\<close>

theorem steps_complete_in_order:
  assumes "run es (mounted t0) = Some w" and "tr \<in> traces w"
  shows "map status (steps tr) \<in>
           {[Processing, Pending, Pending, Pending], [Completed, Processing, Pending, Pending],
            [Completed, Completed, Processing, Pending], [Completed, Completed, Completed, Processing],
            [Completed, Completed, Completed, Completed]} \<and>
         (\<forall>i<3. status (steps tr ! Suc i) \<in> {Processing, Completed} \<longrightarrow>
                 status (steps tr ! i) = Completed)"
proof -
  note p = staged_patterns [OF traces_staged [OF inv_reachable [OF assms(1)] assms(2)]]
  from pattern_in_order [OF p]
  have "\<forall>i<3. status (steps tr ! Suc i) \<in> {Processing, Completed} \<longrightarrow>
                 status (steps tr ! i) = Completed"
    by blast
  with p show ?thesis by (rule conjI)
qed

theorem steps_complete_in_order_witness:
  "\<exists>w. run [SelectPersona analyst, SetInput revenue_query, Send, Wait 500, Fire] (mounted 0) = Some w \<and>
       stage1 revenue_query \<in> traces w \<and>
       map status (steps (stage1 revenue_query)) = [Completed, Processing, Pending, Pending] \<and>
       status (steps (stage1 revenue_query) ! Suc 0) \<in> {Processing, Completed} \<and>
       status (steps (stage1 revenue_query) ! 0) = Completed"
proof -
  let ?w = "run_callback (Tick1 0)
              ((submit analyst revenue_query 0)\<lparr>now := 500, timers := [(1300, Tick2 0), (2500, Tick3 0)]\<rparr>)"
  have r: "run [SelectPersona analyst, SetInput revenue_query, Send, Wait 500, Fire] (mounted 0) = Some ?w"
    by (subst run_submit) (simp add: submit_fields [OF revenue_query_not_blank])
  have m: "stage1 revenue_query \<in> traces ?w"
    by (simp add: traces_def eval_simps submit_fields [OF revenue_query_not_blank] stage1_def)
  have s: "status (steps (stage1 revenue_query) ! Suc 0) \<in> {Processing, Completed}"
    by (simp add: stage_defs tick_defs)
  from steps_complete_in_order [OF r m] s r m show ?thesis
    by (auto simp: stage_steps)
qed

text \<open>
  C9: Submitting while the input is empty or white space only, while no persona is
  selected, or while a query is processing changes nothing at all: the page after the call
  is the page before it. Consequently, in every state the event loop can reach at most one
  invocation is in flight (its call outstanding, or resolved with its final tick pending),
  and one is in flight exactly when the processing flag is up.
\<close>

theorem blocked_submission_is_noop:
  "((\<forall>c\<in>set (inputValue w). is_space c) \<or> selectedPersona w = None \<or> isProcessing w
      \<longrightarrow> handleSendMessage w = w \<and> step Send w = Some w) \<and>
   (run es (mounted t0) = Some w'
      \<longrightarrow> in_flight_count w' \<le> 1 \<and> (isProcessing w' \<longleftrightarrow> in_flight_count w' = 1))"
  using send_blocked [of w] in_flight_bound [OF inv_reachable, of es t0 w']
  by (auto simp: blocked_def trim_empty_iff)

theorem blocked_submission_is_noop_witness:
  "isProcessing (submit analyst revenue_query 0) \<and>
   handleSendMessage (submit analyst revenue_query 0) = submit analyst revenue_query 0 \<and>
   run [SelectPersona analyst, SetInput revenue_query, Send] (mounted 0) = Some (submit analyst revenue_query 0) \<and>
   in_flight_count (submit analyst revenue_query 0) = 1 \<and>
   handleSendMessage ((mounted 0)\<lparr>selectedPersona := Some analyst, inputValue := ''  ''\<rparr>) =
     (mounted 0)\<lparr>selectedPersona := Some analyst, inputValue := ''  ''\<rparr>"
proof -
  have r: "run [SelectPersona analyst, SetInput revenue_query, Send] (mounted 0) = Some (submit analyst revenue_query 0)"
    by (subst run_submit) simp
  have p: "isProcessing (submit analyst revenue_query 0)"
    by (simp add: submit_fields [OF revenue_query_not_blank])
  have b: "\<forall>c\<in>set (inputValue ((mounted 0)\<lparr>selectedPersona := Some analyst, inputValue := ''  ''\<rparr>)). is_space c"
    by (simp add: is_space_def)
  from blocked_submission_is_noop [of "submit analyst revenue_query 0" "[SelectPersona analyst, SetInput revenue_query, Send]" 0 "submit analyst revenue_query 0"]
    blocked_submission_is_noop [of "(mounted 0)\<lparr>selectedPersona := Some analyst, inputValue := ''  ''\<rparr>" "[]" 0 "mounted 0"]
    r p b show ?thesis by simp
qed

text \<open>
  C10: In every state the event loop can reach, a trace that carries a result records the
  durations 500, 800, 1200 and 1000 ms for its four steps and a total of 3500 ms, whatever
  time has passed on the clock and however long the call took.
\<close>

theorem completed_durations_are_constants:
  assumes "run es (mounted t0) = Some w" and "tr \<in> traces w" and "finalResult tr \<noteq> None"
  shows "map duration (steps tr) = [Some 500, Some 800, Some 1200, Some 1000] \<and>
         totalDuration tr = 3500"
proof -
  from traces_staged [OF inv_reachable [OF assms(1)] assms(2)] assms(3)
  obtain q r where "tr = stage4 q r"
    by (auto simp: staged_def stage_result)
  then show ?thesis by (simp add: stage_durations stage_result)
qed

theorem completed_durations_are_constants_witness:
  "\<exists>w. run [SelectPersona analyst, SetInput revenue_query, Send, Wait 500, Fire, Wait 800, Fire,
             Wait 1200, Fire, Wait 7500, Resolve 0 revenue_answer, Wait 3500, Fire] (mounted 0) = Some w \<and>
       now w = 13500 \<and>
       processingTrace w = Some (stage4 revenue_query revenue_answer) \<and>
       stage4 revenue_query revenue_answer \<in> traces w \<and>
       finalResult (stage4 revenue_query revenue_answer) \<noteq> None \<and>
       map duration (steps (stage4 revenue_query revenue_answer)) =
         [Some 500, Some 800, Some 1200, Some 1000] \<and>
       totalDuration (stage4 revenue_query revenue_answer) = 3500"
proof -
  have "\<exists>w. run [SelectPersona analyst, SetInput revenue_query, Send, Wait 500, Fire, Wait 800, Fire,
             Wait 1200, Fire, Wait 7500, Resolve 0 revenue_answer, Wait 3500, Fire] (mounted 0) = Some w \<and>
       now w = 13500 \<and> processingTrace w = Some (stage4 revenue_query revenue_answer)"
    by (subst run_submit)
      (simp add: submit_fields [OF revenue_query_not_blank] eval_simps outstanding_def stage_defs)
  then obtain w where r: "run [SelectPersona analyst, SetInput revenue_query, Send, Wait 500, Fire, Wait 800, Fire,
             Wait 1200, Fire, Wait 7500, Resolve 0 revenue_answer, Wait 3500, Fire] (mounted 0) = Some w"
    and n: "now w = 13500"
    and p: "processingTrace w = Some (stage4 revenue_query revenue_answer)"
    by blast
  from p have m: "stage4 revenue_query revenue_answer \<in> traces w" by (simp add: traces_def)
  have f: "finalResult (stage4 revenue_query revenue_answer) \<noteq> None" by (simp add: stage_result)
  from completed_durations_are_constants [OF r m f] r n p m f show ?thesis
    by (intro exI [of _ w]) simp
qed

subsection \<open>The upload list\<close>

text \<open>
  C3: one CSV file is dropped, its interval ticks once and the upload then fails with
  an \<^verbatim>\<open>Error\<close>. The row gets the status error and the message, but its interval stays
  set, and the next tick moves the progress of the failed row from 10 to 20. After a
  successful upload, by contrast, the interval is cleared and a further tick is impossible.
\<close>

theorem failed_upload_keeps_ticking:
  "upload_run default_props sample_ids
     [Drop [sales_csv], Tick 0, UploadRejected 0 (ErrorObject ''Network Error'')] no_uploads =
   Some \<lparr>uploads = [(new_upload (sample_ids 0) sales_csv)
                      \<lparr>upload_status := UploadError, progress := 10, upload_error := Some ''Network Error''\<rparr>],
         intervals = [(0, sample_ids 0)], drops = [Finished], created = 1\<rparr> \<and>
   upload_run default_props sample_ids
     [Drop [sales_csv], Tick 0, UploadRejected 0 (ErrorObject ''Network Error''), Tick 0] no_uploads =
   Some \<lparr>uploads = [(new_upload (sample_ids 0) sales_csv)
                      \<lparr>upload_status := UploadError, progress := 20, upload_error := Some ''Network Error''\<rparr>],
         intervals = [(0, sample_ids 0)], drops = [Finished], created = 1\<rparr> \<and>
   upload_run default_props sample_ids
     [Drop [sales_csv], Tick 0, UploadResolved 0, Tick 0] no_uploads = None"
  by (simp add: sample_accepts onDrop_def no_uploads_def interval_callback_def on_upload_rejected_def
      on_upload_resolved_def awaiting_def new_upload_def failure_message_def)

text \<open>
  C4, as stated, fails: when two acceptable files are dropped together, the drop creates
  the row of the first file only and starts only its upload; the second file waits in the
  loop.
\<close>

theorem second_file_waits_for_first:
  "upload_step default_props sample_ids (Drop [sales_csv, costs_csv]) no_uploads =
     Some \<lparr>uploads = [new_upload (sample_ids 0) sales_csv],
           intervals = [(0, sample_ids 0)],
           drops = [Awaiting sales_csv (sample_ids 0) 0 [costs_csv]],
           created = 1\<rparr>"
  by (simp add: sample_accepts onDrop_def no_uploads_def)

text \<open>
  C4, amended: the accepted files of one drop are uploaded one at a time, in the order
  of the drop. After the drop and \<open>j\<close> settled uploads (each resolved or rejected), rows
  exist for exactly the first \<open>min (j + 1) n\<close> of the \<open>n\<close> accepted files, and the invocation
  awaits the upload of file \<open>j\<close> alone, the files after it still to come, or has returned
  when none is left.
\<close>

theorem dropped_files_upload_one_at_a_time:
  assumes "length os \<le> length (filter (dropzone_accepts cfg) files)"
  shows "\<exists>w. upload_run cfg rnd (Drop files # settlements 0 os) no_uploads = Some w \<and>
             length (uploads w) = min (Suc (length os)) (length (filter (dropzone_accepts cfg) files)) \<and>
             drops w = [case drop (length os) (filter (dropzone_accepts cfg) files) of
                          [] \<Rightarrow> Finished
                        | f # rest \<Rightarrow> Awaiting f (rnd (length os)) (length os) rest]"
proof -
  from batch_run [OF assms, of cfg rnd] obtain w where
    w: "upload_run cfg rnd (settlements 0 os) (onDrop rnd (filter (dropzone_accepts cfg) files) no_uploads) = Some w"
    and b: "batch_state rnd (filter (dropzone_accepts cfg) files) (length os) w"
    by blast
  from b have "length (map file_of (uploads w)) =
                 length (take (Suc (length os)) (filter (dropzone_accepts cfg) files))"
    by (simp only: batch_state_def)
  then have "length (uploads w) = min (Suc (length os)) (length (filter (dropzone_accepts cfg) files))"
    by (simp add: min.commute)
  with w b show ?thesis by (simp add: batch_state_def next_state_def)
qed

theorem dropped_files_upload_one_at_a_time_witness:
  "length [None, Some OtherValue] \<le> length (filter (dropzone_accepts default_props) [sales_csv, notes_txt, costs_csv]) \<and>
   upload_run default_props sample_ids
     (Drop [sales_csv, notes_txt, costs_csv] # settlements 0 [None]) no_uploads \<noteq> None \<and>
   length (uploads (the (upload_run default_props sample_ids
     (Drop [sales_csv, notes_txt, costs_csv] # settlements 0 [None]) no_uploads))) = 2 \<and>
   drops (the (upload_run default_props sample_ids
     (Drop [sales_csv, notes_txt, costs_csv] # settlements 0 [None]) no_uploads)) =
     [Awaiting costs_csv (sample_ids 1) 1 []] \<and>
   drops (the (upload_run default_props sample_ids
     (Drop [sales_csv, notes_txt, costs_csv] # settlements 0 [None, Some OtherValue]) no_uploads)) =
     [Finished]"
  using dropped_files_upload_one_at_a_time [of "[None]" default_props "[sales_csv, notes_txt, costs_csv]" sample_ids]
    dropped_files_upload_one_at_a_time [of "[None, Some OtherValue]" default_props "[sales_csv, notes_txt, costs_csv]" sample_ids]
  by (auto simp: sample_accepts)

text \<open>
  C7: In every state the upload list can reach, provided the generated ids do not
  collide, the progress of every row is an integer between 0 and 100, and at most 90
  unless the row is completed; a row whose upload is still awaited has the status
  uploading and progress at most 90; and no event lowers the progress of a row.
\<close>

theorem progress_bounded_and_monotone:
  assumes "inj rnd" and "upload_run cfg rnd es no_uploads = Some w"
  shows "(\<forall>u\<in>set (uploads w). 0 \<le> progress u \<and> progress u \<le> 100 \<and>
            (upload_status u \<noteq> UploadCompleted \<longrightarrow> progress u \<le> 90)) \<and>
         (\<forall>f i h fs. Awaiting f i h fs \<in> set (drops w) \<longrightarrow>
            (\<forall>u\<in>set (uploads w). upload_id u = i \<longrightarrow> upload_status u = Uploading \<and> progress u \<le> 90)) \<and>
         (\<forall>e w'. upload_step cfg rnd e w = Some w' \<longrightarrow>
            (\<forall>u\<in>set (uploads w). \<forall>u'\<in>set (uploads w'). upload_id u' = upload_id u \<longrightarrow>
               progress u \<le> progress u'))"
proof -
  note i = upload_inv_reachable [OF assms]
  then have uo: "uploads_ok rnd w" and dk: "drops_ok rnd w" by (simp_all add: upload_inv_def)
  from uo have a: "\<forall>u\<in>set (uploads w). 0 \<le> progress u \<and> progress u \<le> 100 \<and>
            (upload_status u \<noteq> UploadCompleted \<longrightarrow> progress u \<le> 90)"
    by (simp add: uploads_ok_def)
  have b: "\<forall>f i h fs. Awaiting f i h fs \<in> set (drops w) \<longrightarrow>
            (\<forall>u\<in>set (uploads w). upload_id u = i \<longrightarrow> upload_status u = Uploading \<and> progress u \<le> 90)"
  proof (intro allI impI ballI)
    fix f i h fs u
    assume d: "Awaiting f i h fs \<in> set (drops w)" and u: "u \<in> set (uploads w)" "upload_id u = i"
    with dk have "upload_status u = Uploading" by (auto simp: drops_ok_def)
    with a u show "upload_status u = Uploading \<and> progress u \<le> 90" by auto
  qed
  have c: "\<forall>e w'. upload_step cfg rnd e w = Some w' \<longrightarrow>
            (\<forall>u\<in>set (uploads w). \<forall>u'\<in>set (uploads w'). upload_id u' = upload_id u \<longrightarrow>
               progress u \<le> progress u')"
    using progress_step_mono [OF assms(1) i] by blast
  from a b c show ?thesis by blast
qed

theorem progress_bounded_and_monotone_witness:
  "inj sample_ids \<and>
   upload_run default_props sample_ids [Drop [sales_csv], Tick 0, Tick 0] no_uploads =
     Some \<lparr>uploads = [(new_upload (sample_ids 0) sales_csv)\<lparr>progress := 20\<rparr>],
           intervals = [(0, sample_ids 0)],
           drops = [Awaiting sales_csv (sample_ids 0) 0 []], created = 1\<rparr> \<and>
   upload_step default_props sample_ids (Tick 0)
     \<lparr>uploads = [(new_upload (sample_ids 0) sales_csv)\<lparr>progress := 20\<rparr>],
      intervals = [(0, sample_ids 0)],
      drops = [Awaiting sales_csv (sample_ids 0) 0 []], created = 1\<rparr> =
     Some \<lparr>uploads = [(new_upload (sample_ids 0) sales_csv)\<lparr>progress := 30\<rparr>],
           intervals = [(0, sample_ids 0)],
           drops = [Awaiting sales_csv (sample_ids 0) 0 []], created = 1\<rparr> \<and>
   progress ((new_upload (sample_ids 0) sales_csv)\<lparr>progress := 20\<rparr>) \<le> 90 \<and>
   progress ((new_upload (sample_ids 0) sales_csv)\<lparr>progress := 20\<rparr>)
     \<le> progress ((new_upload (sample_ids 0) sales_csv)\<lparr>progress := 30\<rparr>)"
proof -
  let ?w = "\<lparr>uploads = [(new_upload (sample_ids 0) sales_csv)\<lparr>progress := 20\<rparr>],
             intervals = [(0, sample_ids 0)],
             drops = [Awaiting sales_csv (sample_ids 0) 0 []], created = 1\<rparr>"
  have r: "upload_run default_props sample_ids [Drop [sales_csv], Tick 0, Tick 0] no_uploads = Some ?w"
    by (simp add: sample_accepts onDrop_def no_uploads_def interval_callback_def new_upload_def)
  have s: "upload_step default_props sample_ids (Tick 0) ?w =
     Some \<lparr>uploads = [(new_upload (sample_ids 0) sales_csv)\<lparr>progress := 30\<rparr>],
           intervals = [(0, sample_ids 0)],
           drops = [Awaiting sales_csv (sample_ids 0) 0 []], created = 1\<rparr>"
    by (simp add: interval_callback_def new_upload_def)
  from progress_bounded_and_monotone [OF inj_sample_ids r] s inj_sample_ids r
  show ?thesis by (simp add: new_upload_def)
qed

text \<open>
  C8, as stated, fails for the accepted files: two CSV files and a text file are dropped
  together and the interval of the first upload ticks twice. The second CSV file is accepted
  by the drop zone, yet the only row is that of the first: the second waits in the loop, and
  it gets no row for as long as the first upload has not settled.
\<close>

theorem accepted_file_waits_without_task:
  "dropzone_accepts default_props costs_csv \<and>
   upload_run default_props sample_ids [Drop [sales_csv, notes_txt, costs_csv], Tick 0, Tick 0] no_uploads =
     Some \<lparr>uploads = [(new_upload (sample_ids 0) sales_csv)\<lparr>progress := 20\<rparr>],
           intervals = [(0, sample_ids 0)],
           drops = [Awaiting sales_csv (sample_ids 0) 0 [costs_csv]],
           created = 1\<rparr>"
  by (simp add: sample_accepts onDrop_def no_uploads_def interval_callback_def new_upload_def)

text \<open>
  C8, amended: a file that the drop zone turns away (media type not accepted, or larger than
  the maximum) never gets a row, and an accepted file gets at most one, when its turn in
  the loop of its drop comes. In every state the upload list can reach, whatever was dropped,
  ticked, settled and dismissed before: every row belongs to an accepted file and is a row
  that some step created; every row a step created was created for an accepted file, with
  the status uploading, progress 0 and no error; and for every file, the rows created for
  it so far and its copies still waiting in a loop add up to the number of times it was
  dropped and accepted. A step creates a row only for the file whose turn it is: a drop for
  the first of its accepted files, a settlement (resolved or rejected) of the upload that a
  drop awaits for the next file of that drop, a tick or a dismissal for none; the file
  whose turn it was leaves the queue of its drop, and no queue changes otherwise. For a single
  drop this gives, after \<open>j\<close> settled uploads, the rows of the first \<open>j + 1\<close> accepted
  files, the newest of them as created.
\<close>

theorem tasks_only_for_accepted_files_in_turn:
  "(upload_run cfg rnd es no_uploads = Some w \<longrightarrow>
      (\<forall>u\<in>set (uploads w). dropzone_accepts cfg (file_of u) \<and>
          (\<exists>v\<in>set (task_log cfg rnd es no_uploads). upload_id v = upload_id u \<and> file_of v = file_of u)) \<and>
      (\<forall>v\<in>set (task_log cfg rnd es no_uploads).
          dropzone_accepts cfg (file_of v) \<and> upload_status v = Uploading \<and> progress v = 0 \<and>
          upload_error v = None) \<and>
      (\<forall>f. count_list (map file_of (task_log cfg rnd es no_uploads)) f + count_list (waiting w) f =
            count_list (accepted_dropped cfg es) f)) \<and>
   (upload_step cfg rnd e w0 = Some w1 \<longrightarrow>
      tasks_created w0 w1 = map (new_upload (rnd (created w0))) (turn cfg e w0) \<and>
      map queued (drops w1) =
        (case e of
           Drop files' \<Rightarrow> map queued (drops w0) @ [tl (filter (dropzone_accepts cfg) files')]
         | UploadResolved b \<Rightarrow> (map queued (drops w0))[b := tl (queued (drops w0 ! b))]
         | UploadRejected b x \<Rightarrow> (map queued (drops w0))[b := tl (queued (drops w0 ! b))]
         | Tick h \<Rightarrow> map queued (drops w0)
         | Remove j \<Rightarrow> map queued (drops w0))) \<and>
   (length os \<le> length (filter (dropzone_accepts cfg) files) \<longrightarrow>
      (\<exists>w'. upload_run cfg rnd (Drop files # settlements 0 os) no_uploads = Some w' \<and>
            map file_of (uploads w') = take (Suc (length os)) (filter (dropzone_accepts cfg) files) \<and>
            (length os < length (filter (dropzone_accepts cfg) files) \<longrightarrow>
               last (uploads w') =
                 new_upload (rnd (length os)) (filter (dropzone_accepts cfg) files ! length os)))) \<and>
   upload_status (new_upload i f') = Uploading \<and> progress (new_upload i f') = 0"
proof -
  have a: "upload_run cfg rnd es no_uploads = Some w \<longrightarrow>
      (\<forall>u\<in>set (uploads w). dropzone_accepts cfg (file_of u) \<and>
          (\<exists>v\<in>set (task_log cfg rnd es no_uploads). upload_id v = upload_id u \<and> file_of v = file_of u)) \<and>
      (\<forall>v\<in>set (task_log cfg rnd es no_uploads).
          dropzone_accepts cfg (file_of v) \<and> upload_status v = Uploading \<and> progress v = 0 \<and>
          upload_error v = None) \<and>
      (\<forall>f. count_list (map file_of (task_log cfg rnd es no_uploads)) f + count_list (waiting w) f =
            count_list (accepted_dropped cfg es) f)"
  proof
    assume r: "upload_run cfg rnd es no_uploads = Some w"
    from accepted_reachable [OF r] rows_logged [OF r] log_reachable [OF r] conserve_reachable [OF r]
    show "(\<forall>u\<in>set (uploads w). dropzone_accepts cfg (file_of u) \<and>
          (\<exists>v\<in>set (task_log cfg rnd es no_uploads). upload_id v = upload_id u \<and> file_of v = file_of u)) \<and>
      (\<forall>v\<in>set (task_log cfg rnd es no_uploads).
          dropzone_accepts cfg (file_of v) \<and> upload_status v = Uploading \<and> progress v = 0 \<and>
          upload_error v = None) \<and>
      (\<forall>f. count_list (map file_of (task_log cfg rnd es no_uploads)) f + count_list (waiting w) f =
            count_list (accepted_dropped cfg es) f)"
      by blast
  qed
  have b: "upload_step cfg rnd e w0 = Some w1 \<longrightarrow>
      tasks_created w0 w1 = map (new_upload (rnd (created w0))) (turn cfg e w0) \<and>
      map queued (drops w1) =
        (case e of
           Drop files' \<Rightarrow> map queued (drops w0) @ [tl (filter (dropzone_accepts cfg) files')]
         | UploadResolved b \<Rightarrow> (map queued (drops w0))[b := tl (queued (drops w0 ! b))]
         | UploadRejected b x \<Rightarrow> (map queued (drops w0))[b := tl (queued (drops w0 ! b))]
         | Tick h \<Rightarrow> map queued (drops w0)
         | Remove j \<Rightarrow> map queued (drops w0))"
  proof
    assume s: "upload_step cfg rnd e w0 = Some w1"
    from step_creates [OF s] step_queues [OF s]
    show "tasks_created w0 w1 = map (new_upload (rnd (created w0))) (turn cfg e w0) \<and>
      map queued (drops w1) =
        (case e of
           Drop files' \<Rightarrow> map queued (drops w0) @ [tl (filter (dropzone_accepts cfg) files')]
         | UploadResolved b \<Rightarrow> (map queued (drops w0))[b := tl (queued (drops w0 ! b))]
         | UploadRejected b x \<Rightarrow> (map queued (drops w0))[b := tl (queued (drops w0 ! b))]
         | Tick h \<Rightarrow> map queued (drops w0)
         | Remove j \<Rightarrow> map queued (drops w0))"
      by (rule conjI)
  qed
  have c: "length os \<le> length (filter (dropzone_accepts cfg) files) \<longrightarrow>
      (\<exists>w'. upload_run cfg rnd (Drop files # settlements 0 os) no_uploads = Some w' \<and>
            map file_of (uploads w') = take (Suc (length os)) (filter (dropzone_accepts cfg) files) \<and>
            (length os < length (filter (dropzone_accepts cfg) files) \<longrightarrow>
               last (uploads w') =
                 new_upload (rnd (length os)) (filter (dropzone_accepts cfg) files ! length os)))"
  proof
    assume "length os \<le> length (filter (dropzone_accepts cfg) files)"
    from batch_run [OF this, of cfg rnd] show "\<exists>w'. upload_run cfg rnd (Drop files # settlements 0 os) no_uploads = Some w' \<and>
            map file_of (uploads w') = take (Suc (length os)) (filter (dropzone_accepts cfg) files) \<and>
            (length os < length (filter (dropzone_accepts cfg) files) \<longrightarrow>
               last (uploads w') =
                 new_upload (rnd (length os)) (filter (dropzone_accepts cfg) files ! length os))"
      by (auto simp: batch_state_def)
  qed
  from a b c show ?thesis by (simp add: new_upload_def)
qed

theorem tasks_only_for_accepted_files_in_turn_witness:
  "upload_run default_props sample_ids
     [Drop [sales_csv, notes_txt, costs_csv], Remove (sample_ids 0), UploadResolved 0, Drop [report_pdf]]
     no_uploads =
     Some \<lparr>uploads = [new_upload (sample_ids 1) costs_csv], intervals = [(1, sample_ids 1)],
           drops = [Awaiting costs_csv (sample_ids 1) 1 [], Finished], created = 2\<rparr> \<and>
   task_log default_props sample_ids
     [Drop [sales_csv, notes_txt, costs_csv], Remove (sample_ids 0), UploadResolved 0, Drop [report_pdf]]
     no_uploads = [new_upload (sample_ids 0) sales_csv, new_upload (sample_ids 1) costs_csv] \<and>
   accepted_dropped default_props
     [Drop [sales_csv, notes_txt, costs_csv], Remove (sample_ids 0), UploadResolved 0, Drop [report_pdf]] =
     [sales_csv, costs_csv] \<and>
   count_list (map file_of (task_log default_props sample_ids
     [Drop [sales_csv, notes_txt, costs_csv], Remove (sample_ids 0), UploadResolved 0, Drop [report_pdf]]
     no_uploads)) costs_csv +
   count_list (waiting \<lparr>uploads = [new_upload (sample_ids 1) costs_csv], intervals = [(1, sample_ids 1)],
           drops = [Awaiting costs_csv (sample_ids 1) 1 [], Finished], created = 2\<rparr>) costs_csv =
   count_list (accepted_dropped default_props
     [Drop [sales_csv, notes_txt, costs_csv], Remove (sample_ids 0), UploadResolved 0, Drop [report_pdf]])
     costs_csv \<and>
   dropzone_accepts default_props costs_csv \<and>
   \<not> dropzone_accepts default_props notes_txt \<and> \<not> dropzone_accepts default_props report_pdf \<and>
   upload_step default_props sample_ids (Drop [sales_csv, notes_txt, costs_csv]) no_uploads =
     Some \<lparr>uploads = [new_upload (sample_ids 0) sales_csv], intervals = [(0, sample_ids 0)],
           drops = [Awaiting sales_csv (sample_ids 0) 0 [costs_csv]], created = 1\<rparr> \<and>
   tasks_created no_uploads
     \<lparr>uploads = [new_upload (sample_ids 0) sales_csv], intervals = [(0, sample_ids 0)],
      drops = [Awaiting sales_csv (sample_ids 0) 0 [costs_csv]], created = 1\<rparr> =
     [new_upload (sample_ids 0) sales_csv] \<and>
   length [None] \<le> length (filter (dropzone_accepts default_props) [sales_csv, notes_txt, costs_csv]) \<and>
   map file_of (uploads (the (upload_run default_props sample_ids
     (Drop [sales_csv, notes_txt, costs_csv] # settlements 0 [None]) no_uploads))) = [sales_csv, costs_csv] \<and>
   last (uploads (the (upload_run default_props sample_ids
     (Drop [sales_csv, notes_txt, costs_csv] # settlements 0 [None]) no_uploads))) =
     new_upload (sample_ids 1) costs_csv"
proof -
  let ?es = "[Drop [sales_csv, notes_txt, costs_csv], Remove (sample_ids 0), UploadResolved 0, Drop [report_pdf]]"
  let ?w = "\<lparr>uploads = [new_upload (sample_ids 1) costs_csv], intervals = [(1, sample_ids 1)],
             drops = [Awaiting costs_csv (sample_ids 1) 1 [], Finished], created = 2\<rparr>"
  let ?w1 = "\<lparr>uploads = [new_upload (sample_ids 0) sales_csv], intervals = [(0, sample_ids 0)],
              drops = [Awaiting sales_csv (sample_ids 0) 0 [costs_csv]], created = 1\<rparr>"
  have r: "upload_run default_props sample_ids ?es no_uploads = Some ?w"
    by (simp add: sample_accepts onDrop_def no_uploads_def removeUpload_def awaiting_def
        on_upload_resolved_def new_upload_def)
  have s: "upload_step default_props sample_ids (Drop [sales_csv, notes_txt, costs_csv]) no_uploads = Some ?w1"
    by (simp add: sample_accepts onDrop_def no_uploads_def)
  have l: "task_log default_props sample_ids ?es no_uploads =
             [new_upload (sample_ids 0) sales_csv, new_upload (sample_ids 1) costs_csv]"
    by (simp add: sample_accepts onDrop_def no_uploads_def removeUpload_def awaiting_def
        on_upload_resolved_def tasks_created_def)
  have d: "accepted_dropped default_props ?es = [sales_csv, costs_csv]"
    by (simp add: accepted_dropped_def sample_accepts)
  have tn: "turn default_props (Drop [sales_csv, notes_txt, costs_csv]) no_uploads = [sales_csv]"
    by (simp add: turn_def sample_accepts)
  have n: "created no_uploads = 0" by (simp add: no_uploads_def)
  have len: "length [None] \<le> length (filter (dropzone_accepts default_props) [sales_csv, notes_txt, costs_csv])"
    by (simp add: sample_accepts)
  note t = tasks_only_for_accepted_files_in_turn [where cfg = default_props and rnd = sample_ids
      and es = ?es and w = ?w and e = "Drop [sales_csv, notes_txt, costs_csv]" and ?w0.0 = no_uploads
      and ?w1.0 = ?w1 and os = "[None]" and files = "[sales_csv, notes_txt, costs_csv]"
      and i = "sample_ids 0" and f' = sales_csv]
  note k = t [THEN conjunct1, THEN mp, OF r, THEN conjunct2, THEN conjunct2, THEN spec [where x = costs_csv]]
  note c = t [THEN conjunct2, THEN conjunct1, THEN mp, OF s, THEN conjunct1, unfolded tn n list.map]
  from t [THEN conjunct2, THEN conjunct2, THEN conjunct1, THEN mp, OF len] obtain w' where
    w': "upload_run default_props sample_ids (Drop [sales_csv, notes_txt, costs_csv] # settlements 0 [None]) no_uploads = Some w'"
      "map file_of (uploads w') = [sales_csv, costs_csv]" "last (uploads w') = new_upload (sample_ids 1) costs_csv"
    by (auto simp: sample_accepts)
  from w' have m: "map file_of (uploads (the (upload_run default_props sample_ids
     (Drop [sales_csv, notes_txt, costs_csv] # settlements 0 [None]) no_uploads))) = [sales_csv, costs_csv]"
    "last (uploads (the (upload_run default_props sample_ids
     (Drop [sales_csv, notes_txt, costs_csv] # settlements 0 [None]) no_uploads))) =
     new_upload (sample_ids 1) costs_csv"
    by simp_all
  show ?thesis
    by (intro conjI) (rule r l d k c s len m sample_accepts)+
qed

end
